theory Spec2Isabelle
  imports Complex_Main "HOL-Library.Multiset" "HOL-Library.Product_Lexorder"
begin

section \<open>Numbers\<close>

text \<open>
  A JavaScript number is a finite value, \<open>NaN\<close>, \<open>Infinity\<close> or \<open>-Infinity\<close>. All
  four reach the order book: the \<open>number\<close> properties of an order are whatever the caller
  passes (\<open>Peer.submitOrder\<close> passes the result of \<open>parseFloat\<close>). Finite values are kept
  as exact rationals: the rounding error and the overflow of double arithmetic are left out
  of the model, and so is the \<open>RangeError\<close> that \<open>toFixed\<close> throws for more than 100
  decimals (the precisions of a book are taken to be at most 100).
\<close>

datatype number = Num rat | NaN | Infinity | NegInfinity

text \<open>The operators \<open>-\<close>, \<open><\<close>, \<open><=\<close>, \<open>===\<close> and \<open>Math.min\<close> on numbers.\<close>

fun js_sub :: "number \<Rightarrow> number \<Rightarrow> number" where
  "js_sub (Num x) (Num y) = Num (x - y)"
| "js_sub NaN _ = NaN"
| "js_sub _ NaN = NaN"
| "js_sub Infinity Infinity = NaN"
| "js_sub NegInfinity NegInfinity = NaN"
| "js_sub Infinity _ = Infinity"
| "js_sub NegInfinity _ = NegInfinity"
| "js_sub (Num x) Infinity = NegInfinity"
| "js_sub (Num x) NegInfinity = Infinity"

fun js_lt :: "number \<Rightarrow> number \<Rightarrow> bool" where
  "js_lt (Num x) (Num y) = (x < y)"
| "js_lt (Num x) Infinity = True"
| "js_lt NegInfinity (Num y) = True"
| "js_lt NegInfinity Infinity = True"
| "js_lt _ _ = False"

definition js_eq :: "number \<Rightarrow> number \<Rightarrow> bool" where
  "js_eq a b = (a \<noteq> NaN \<and> a = b)"

definition js_le :: "number \<Rightarrow> number \<Rightarrow> bool" where
  "js_le a b = (js_lt a b \<or> js_eq a b)"

definition js_min :: "number \<Rightarrow> number \<Rightarrow> number" where
  "js_min a b = (if a = NaN \<or> b = NaN then NaN else if js_lt b a then b else a)"

text \<open>
  \<open>null\<close> is \<open>None\<close>; in arithmetic and in \<open>>=\<close>, \<open><=\<close> JavaScript coerces \<open>null\<close>
  to \<open>0\<close>, which is \<open>num\<close>. \<open>a !== b\<close> on two prices is \<open>js_ne\<close>: \<open>null\<close> equals
  only \<open>null\<close>, and \<open>NaN\<close> differs from everything, itself included.
\<close>

definition num :: "number option \<Rightarrow> number" where
  "num v = (case v of None \<Rightarrow> Num 0 | Some x \<Rightarrow> x)"

definition js_ne :: "number option \<Rightarrow> number option \<Rightarrow> bool" where
  "js_ne a b = (a \<noteq> b \<or> a = Some NaN)"

text \<open>
  \<open>#round(value, decimals) = parseFloat(value.toFixed(decimals))\<close>. On a finite value
  \<open>toFixed\<close> picks the integer \<open>n\<close> with \<open>n / 10^decimals\<close> nearest to the absolute
  value, the larger one on a tie, and puts the sign back (\<open>round_rat\<close>); \<open>NaN\<close>,
  \<open>Infinity\<close> and \<open>-Infinity\<close> are printed by name and \<open>parseFloat\<close> reads them back.
\<close>

definition round_rat :: "rat \<Rightarrow> nat \<Rightarrow> rat" where
  "round_rat v decimals =
     (if v < 0 then - (of_int \<lfloor>(- v) * 10 ^ decimals + 1 / 2\<rfloor> / 10 ^ decimals)
      else of_int \<lfloor>v * 10 ^ decimals + 1 / 2\<rfloor> / 10 ^ decimals)"

definition round_dec :: "number \<Rightarrow> nat \<Rightarrow> number" where
  "round_dec v decimals = (case v of Num x \<Rightarrow> Num (round_rat x decimals) | _ \<Rightarrow> v)"

section \<open>Enums (enums.js)\<close>

abbreviation BUY :: string where "BUY \<equiv> ''buy''"
abbreviation SELL :: string where "SELL \<equiv> ''sell''"
abbreviation LIMIT :: string where "LIMIT \<equiv> ''limit''"
abbreviation MARKET :: string where "MARKET \<equiv> ''market''"

datatype OrderStatus = OPEN | FILLED | PARTIALLY_FILLED | CANCELLED

datatype OrderBookEvent = TRADE | ORDER_ADDED | ORDER_REMOVED

section \<open>Data model\<close>

text \<open>
  The object handed to \<open>addOrder\<close>. Every property may be missing (\<open>None\<close>);
  \<open>r_remote\<close> is the property that \<open>applyRemoteOrder\<close> adds.
\<close>

record raw_order =
  r_id :: "string option"
  r_side :: "string option"
  r_type :: "string option"
  r_price :: "number option"
  r_quantity :: "number option"
  r_peerId :: "string option"
  r_timestamp :: "number option"
  r_remote :: "bool option"

text \<open>The normalised order built by \<open>addOrder\<close>, which is also what rests in a heap.\<close>

record order =
  oid :: string
  side :: string
  otype :: string
  price :: "number option"
  quantity :: number
  peerId :: "string option"
  timestamp :: number
  status :: OrderStatus

text \<open>
  A trade. Its id is the string \<open>remainder.id _ best.id _ Date.now()\<close>, kept here as
  its three parts.
\<close>

record trade =
  tid :: "string \<times> string \<times> int"
  tpair :: string
  tprice :: "number option"
  tquantity :: number
  buyOrderId :: string
  sellOrderId :: string
  buyPeerId :: "string option"
  sellPeerId :: "string option"
  ttimestamp :: int

datatype payload = PTrade trade | POrder order

text \<open>
  One invocation of a hook: the event, the data handed to the hook, and the trade log
  \<open>getTrades()\<close> returns when the hook runs.
\<close>

record hook_call =
  hc_event :: OrderBookEvent
  hc_data :: payload
  hc_trades :: "trade list"

text \<open>
  The book. A heap is its array \<open>#data\<close>. The three hooks are callbacks of the host; the
  model keeps whether each one is registered and logs every invocation in \<open>hook_log\<close>.
  A hook is taken to observe only: it neither throws nor calls back into the book nor
  changes the object it is handed.
\<close>

record book =
  pair :: string
  pricePrecision :: nat
  quantityPrecision :: nat
  bids :: "order list"
  asks :: "order list"
  trades :: "trade list"
  onTrade :: bool
  onOrderAdded :: bool
  onOrderRemoved :: bool
  hook_log :: "hook_call list"

datatype error =
    MissingId | InvalidSide | InvalidType | InvalidPrice | InvalidQuantity | PairMismatch

section \<open>Heap (Heap.js)\<close>

type_synonym comparator = "order \<Rightarrow> order \<Rightarrow> number"

text \<open>The test \<open>comparator(a, b) < 0\<close> of \<open>#bubbleUp\<close> and \<open>#bubbleDown\<close>.\<close>

definition negative :: "number \<Rightarrow> bool" where
  "negative n = js_lt n (Num 0)"

definition swap :: "'a list \<Rightarrow> nat \<Rightarrow> nat \<Rightarrow> 'a list" where
  "swap xs i j = xs[i := xs ! j, j := xs ! i]"

function bubbleUp :: "comparator \<Rightarrow> order list \<Rightarrow> nat \<Rightarrow> order list" where
  "bubbleUp cmp xs idx =
     (if idx > 0 then
        (let parentIdx = (idx - 1) div 2 in
         if negative (cmp (xs ! idx) (xs ! parentIdx))
         then bubbleUp cmp (swap xs idx parentIdx) parentIdx
         else xs)
      else xs)"
  by pat_completeness auto
termination
  by (relation "measure (\<lambda>(cmp, xs, idx). idx)") auto

declare bubbleUp.simps [simp del]

definition bestChild :: "comparator \<Rightarrow> order list \<Rightarrow> nat \<Rightarrow> nat" where
  "bestChild cmp xs idx =
     (let left = 2 * idx + 1;
          right = 2 * idx + 2;
          best = idx;
          best = (if left < length xs \<and> negative (cmp (xs ! left) (xs ! best)) then left else best);
          best = (if right < length xs \<and> negative (cmp (xs ! right) (xs ! best)) then right else best)
      in best)"

lemma bestChild_bounds:
  "bestChild cmp xs idx \<noteq> idx \<Longrightarrow> idx < bestChild cmp xs idx \<and> bestChild cmp xs idx < length xs"
  by (auto simp: bestChild_def Let_def split: if_splits)

function bubbleDown :: "comparator \<Rightarrow> order list \<Rightarrow> nat \<Rightarrow> order list" where
  "bubbleDown cmp xs idx =
     (let best = bestChild cmp xs idx in
      if best \<noteq> idx then bubbleDown cmp (swap xs idx best) best else xs)"
  by pat_completeness auto
termination
proof (relation "measure (\<lambda>(cmp, xs, idx). length xs - idx)")
  show "wf (measure (\<lambda>(cmp, xs, idx). length xs - idx))" by simp
next
  fix cmp :: comparator and xs :: "order list" and idx x
  assume "x = bestChild cmp xs idx" and "x \<noteq> idx"
  then have "idx < x \<and> x < length xs" using bestChild_bounds by blast
  then show "((cmp, swap xs idx x, x), (cmp, xs, idx))
      \<in> measure (\<lambda>(cmp, xs, idx). length xs - idx)"
    by (simp add: swap_def) arith
qed

declare bubbleDown.simps [simp del]

definition peek :: "order list \<Rightarrow> order option" where
  "peek xs = (case xs of [] \<Rightarrow> None | x # _ \<Rightarrow> Some x)"

definition insert_heap :: "comparator \<Rightarrow> order \<Rightarrow> order list \<Rightarrow> order list" where
  "insert_heap cmp item xs = bubbleUp cmp (xs @ [item]) (length (xs @ [item]) - 1)"

definition extractTop :: "comparator \<Rightarrow> order list \<Rightarrow> order option \<times> order list" where
  "extractTop cmp xs =
     (if xs = [] then (None, xs)
      else
        (let top = xs ! 0;
             lst = last xs;
             data = butlast xs
         in if length data > 0 then (Some top, bubbleDown cmp (data[0 := lst]) 0)
            else (Some top, data)))"

fun findIndex :: "string \<Rightarrow> order list \<Rightarrow> nat option" where
  "findIndex i [] = None"
| "findIndex i (x # xs) =
     (if oid x = i then Some 0 else map_option Suc (findIndex i xs))"

definition removeById :: "comparator \<Rightarrow> string \<Rightarrow> order list \<Rightarrow> order option \<times> order list" where
  "removeById cmp i xs =
     (case findIndex i xs of
        None \<Rightarrow> (None, xs)
      | Some idx \<Rightarrow>
          (let removed = xs ! idx;
               lst = last xs;
               data = butlast xs
           in if idx < length data
              then (Some removed, bubbleDown cmp (bubbleUp cmp (data[idx := lst]) idx) idx)
              else (Some removed, data)))"

fun updateQuantity :: "order list \<Rightarrow> string \<Rightarrow> number \<Rightarrow> order list" where
  "updateQuantity [] i newQuantity = []"
| "updateQuantity (x # xs) i newQuantity =
     (if oid x = i then x\<lparr>quantity := newQuantity\<rparr> # xs
      else x # updateQuantity xs i newQuantity)"

text \<open>The comparators of \<open>BidHeap\<close> and \<open>AskHeap\<close>.\<close>

definition bidCmp :: comparator where
  "bidCmp a b =
     (if js_ne (price b) (price a) then js_sub (num (price b)) (num (price a))
      else js_sub (timestamp a) (timestamp b))"

definition askCmp :: comparator where
  "askCmp a b =
     (if js_ne (price a) (price b) then js_sub (num (price a)) (num (price b))
      else js_sub (timestamp a) (timestamp b))"

section \<open>Order book (OrderBook.js)\<close>

text \<open>
  \<open>Date.now()\<close> is an input of the environment: \<open>clk k\<close> is the value of the
  \<open>k\<close>-th reading of the clock during a call.
\<close>

type_synonym clock = "nat \<Rightarrow> int"

text \<open>The constructor: it throws on a missing pair (\<open>None\<close>) and defaults the precisions.\<close>

definition new_OrderBook ::
  "string \<Rightarrow> nat option \<Rightarrow> nat option \<Rightarrow> bool \<Rightarrow> bool \<Rightarrow> bool \<Rightarrow> book option" where
  "new_OrderBook p pp qp hTrade hAdded hRemoved =
     (if p = [] then None
      else Some \<lparr>pair = p,
                 pricePrecision = (case pp of None \<Rightarrow> 2 | Some d \<Rightarrow> d),
                 quantityPrecision = (case qp of None \<Rightarrow> 8 | Some d \<Rightarrow> d),
                 bids = [], asks = [], trades = [],
                 onTrade = hTrade, onOrderAdded = hAdded, onOrderRemoved = hRemoved,
                 hook_log = []\<rparr>)"

definition hook_registered :: "OrderBookEvent \<Rightarrow> book \<Rightarrow> bool" where
  "hook_registered event b =
     (case event of TRADE \<Rightarrow> onTrade b | ORDER_ADDED \<Rightarrow> onOrderAdded b
      | ORDER_REMOVED \<Rightarrow> onOrderRemoved b)"

definition emit :: "OrderBookEvent \<Rightarrow> payload \<Rightarrow> book \<Rightarrow> book" where
  "emit event data b =
     (if hook_registered event b
      then b\<lparr>hook_log := hook_log b @
                [\<lparr>hc_event = event, hc_data = data, hc_trades = trades b\<rparr>]\<rparr>
      else b)"

text \<open>JavaScript truthiness of an optional string and of an optional number.\<close>

definition truthy_str :: "string option \<Rightarrow> bool" where
  "truthy_str v = (case v of None \<Rightarrow> False | Some s \<Rightarrow> s \<noteq> [])"

definition truthy_num :: "number option \<Rightarrow> bool" where
  "truthy_num v = (case v of None \<Rightarrow> False | Some x \<Rightarrow> x \<noteq> Num 0 \<and> x \<noteq> NaN)"

definition validateOrder :: "raw_order \<Rightarrow> error option" where
  "validateOrder order =
     (if \<not> truthy_str (r_id order) then Some MissingId
      else if r_side order \<notin> {Some BUY, Some SELL} then Some InvalidSide
      else if truthy_str (r_type order) \<and> r_type order \<notin> {Some LIMIT, Some MARKET}
        then Some InvalidType
      else if r_type order \<noteq> Some MARKET \<and>
              (case r_price order of None \<Rightarrow> True | Some p \<Rightarrow> js_le p (Num 0))
        then Some InvalidPrice
      else if \<not> truthy_num (r_quantity order) \<or>
              (case r_quantity order of None \<Rightarrow> False | Some q \<Rightarrow> js_le q (Num 0))
        then Some InvalidQuantity
      else None)"

text \<open>
  The object \<open>normalised\<close> of \<open>addOrder\<close>. It is built after \<open>#validateOrder\<close> has
  returned, so the id, the side, the quantity and (unless the type is market) the price are
  present. The clock is read only when the timestamp is missing, \<open>0\<close> or \<open>NaN\<close>.
\<close>

definition normalise :: "clock \<Rightarrow> raw_order \<Rightarrow> book \<Rightarrow> order" where
  "normalise clk order b =
     \<lparr>oid = the (r_id order),
      side = the (r_side order),
      otype = (if truthy_str (r_type order) then the (r_type order) else LIMIT),
      price = (if r_type order = Some MARKET then None
               else Some (round_dec (the (r_price order)) (pricePrecision b))),
      quantity = round_dec (the (r_quantity order)) (quantityPrecision b),
      peerId = (if truthy_str (r_peerId order) then r_peerId order else None),
      timestamp = (if truthy_num (r_timestamp order) then the (r_timestamp order)
                   else Num (of_int (clk 0))),
      status = OPEN\<rparr>"

definition clock_reads :: "raw_order \<Rightarrow> nat" where
  "clock_reads order = (if truthy_num (r_timestamp order) then 0 else 1)"

subsection \<open>Matching\<close>

definition opposingHeap :: "order \<Rightarrow> book \<Rightarrow> order list" where
  "opposingHeap order b = (if side order = BUY then asks b else bids b)"

definition opposingCmp :: "order \<Rightarrow> comparator" where
  "opposingCmp order = (if side order = BUY then askCmp else bidCmp)"

definition set_opposingHeap :: "order \<Rightarrow> order list \<Rightarrow> book \<Rightarrow> book" where
  "set_opposingHeap order h b = (if side order = BUY then b\<lparr>asks := h\<rparr> else b\<lparr>bids := h\<rparr>)"

definition priceMatches :: "order \<Rightarrow> order \<Rightarrow> order \<Rightarrow> bool" where
  "priceMatches order remainder best =
     (if otype order = MARKET then True
      else if side order = BUY then js_le (num (price best)) (num (price remainder))
      else js_le (num (price remainder)) (num (price best)))"

definition tradedQty :: "book \<Rightarrow> order \<Rightarrow> order \<Rightarrow> number" where
  "tradedQty b remainder best =
     round_dec (js_min (quantity remainder) (quantity best)) (quantityPrecision b)"

definition make_trade :: "clock \<Rightarrow> nat \<Rightarrow> book \<Rightarrow> order \<Rightarrow> order \<Rightarrow> order \<Rightarrow> trade" where
  "make_trade clk k b order remainder best =
     \<lparr>tid = (oid remainder, oid best, clk k),
      tpair = pair b,
      tprice = price best,
      tquantity = tradedQty b remainder best,
      buyOrderId = (if side order = BUY then oid remainder else oid best),
      sellOrderId = (if side order = SELL then oid remainder else oid best),
      buyPeerId = (if side order = BUY then peerId remainder else peerId best),
      sellPeerId = (if side order = SELL then peerId remainder else peerId best),
      ttimestamp = clk (k + 1)\<rparr>"

definition fill_remainder :: "book \<Rightarrow> order \<Rightarrow> order \<Rightarrow> order" where
  "fill_remainder b remainder best =
     remainder\<lparr>quantity :=
       round_dec (js_sub (quantity remainder) (tradedQty b remainder best))
         (quantityPrecision b)\<rparr>"

text \<open>
  \<open>best\<close> is the object at index \<open>0\<close> of the opposing heap, so the assignment to
  \<open>best.quantity\<close> changes the heap's array in place; then the order is extracted, or
  \<open>updateQuantity\<close> looks it up by id.
\<close>

definition fill_best :: "book \<Rightarrow> order \<Rightarrow> order \<Rightarrow> order \<Rightarrow> book" where
  "fill_best b order remainder best =
     (let best' = best\<lparr>quantity :=
            round_dec (js_sub (quantity best) (tradedQty b remainder best))
              (quantityPrecision b)\<rparr>;
          heap = (opposingHeap order b)[0 := best']
      in if js_eq (quantity best') (Num 0)
         then emit ORDER_REMOVED (POrder best')
                (set_opposingHeap order (snd (extractTop (opposingCmp order) heap)) b)
         else set_opposingHeap order (updateQuantity heap (oid best') (quantity best')) b)"

subsection \<open>Rounding\<close>

text \<open>A finite number is aligned to \<open>d\<close> decimals when rounding leaves it as it is.\<close>

definition aligned :: "rat \<Rightarrow> nat \<Rightarrow> bool" where
  "aligned x d = (round_rat x d = x)"

lemma floor_int_half: "\<lfloor>(of_int k :: rat) + 1 / 2\<rfloor> = k"
  by linarith

lemma round_rat_of_int: "round_rat (of_int k / 10 ^ d) d = of_int k / 10 ^ d"
proof (cases "k < 0")
  case True
  then have neg: "(of_int k :: rat) / 10 ^ d < 0" by (simp add: divide_neg_pos)
  have "(- (of_int k / 10 ^ d)) * 10 ^ d = (of_int (- k) :: rat)" by simp
  then have "\<lfloor>(- (of_int k / 10 ^ d :: rat)) * 10 ^ d + 1 / 2\<rfloor> = - k"
    using floor_int_half [of "- k"] by simp
  then show ?thesis using neg by (simp add: round_rat_def)
next
  case False
  then have nneg: "\<not> (of_int k :: rat) / 10 ^ d < 0" by (simp add: divide_less_0_iff)
  have "(of_int k / 10 ^ d) * 10 ^ d = (of_int k :: rat)" by simp
  then have "\<lfloor>(of_int k / 10 ^ d :: rat) * 10 ^ d + 1 / 2\<rfloor> = k"
    using floor_int_half [of k] by simp
  then show ?thesis using nneg by (simp add: round_rat_def)
qed

lemma round_rat_is_int: "\<exists>k. round_rat x d = of_int k / 10 ^ d"
proof (cases "x < 0")
  case True
  then have "round_rat x d = of_int (- \<lfloor>(- x) * 10 ^ d + 1 / 2\<rfloor>) / 10 ^ d"
    by (simp add: round_rat_def)
  then show ?thesis by blast
next
  case False
  then have "round_rat x d = of_int \<lfloor>x * 10 ^ d + 1 / 2\<rfloor> / 10 ^ d"
    by (simp add: round_rat_def)
  then show ?thesis by blast
qed

lemma aligned_iff: "aligned x d \<longleftrightarrow> (\<exists>k. x = of_int k / 10 ^ d)"
  unfolding aligned_def
  by (metis round_rat_of_int round_rat_is_int)

lemma aligned_round [simp]: "aligned (round_rat x d) d"
  using round_rat_is_int [of x d] by (auto simp: aligned_iff)

lemma aligned_diff: "aligned x d \<Longrightarrow> aligned y d \<Longrightarrow> aligned (x - y) d"
proof -
  assume "aligned x d" "aligned y d"
  then obtain a b where "x = of_int a / 10 ^ d" "y = of_int b / 10 ^ d"
    by (auto simp: aligned_iff)
  then have "x - y = of_int (a - b) / 10 ^ d" by (simp add: diff_divide_distrib)
  then show ?thesis unfolding aligned_iff by blast
qed

lemma aligned_min: "aligned x d \<Longrightarrow> aligned y d \<Longrightarrow> aligned (min x y) d"
  by (simp add: min_def)

lemma aligned_zero [simp]: "aligned 0 d"
  using round_rat_of_int [of 0 d] by (simp add: aligned_def)

lemma round_rat_aligned: "aligned x d \<Longrightarrow> round_rat x d = x"
  by (simp add: aligned_def)

lemma round_rat_zero [simp]: "round_rat 0 d = 0"
  using aligned_zero [of d] by (simp add: aligned_def)

lemma round_dec_simps [simp]:
  "round_dec (Num x) d = Num (round_rat x d)"
  "round_dec NaN d = NaN"
  "round_dec Infinity d = Infinity"
  "round_dec NegInfinity d = NegInfinity"
  by (simp_all add: round_dec_def)

lemma js_eq_zero [simp]: "js_eq a (Num 0) = (a = Num 0)"
  by (auto simp: js_eq_def)

lemma js_min_Num [simp]: "js_min (Num x) (Num y) = Num (min x y)"
  by (simp add: js_min_def min_def)

subsection \<open>Sizes of the heap arrays\<close>

lemma length_swap [simp]: "length (swap xs i j) = length xs"
  by (simp add: swap_def)

lemma length_bubbleUp [simp]: "length (bubbleUp cmp xs idx) = length xs"
proof (induction cmp xs idx rule: bubbleUp.induct)
  case (1 cmp xs idx)
  then show ?case by (subst bubbleUp.simps) (simp add: Let_def)
qed

lemma length_bubbleDown [simp]: "length (bubbleDown cmp xs idx) = length xs"
proof (induction cmp xs idx rule: bubbleDown.induct)
  case (1 cmp xs idx)
  then show ?case by (subst bubbleDown.simps) (simp add: Let_def)
qed

lemma length_extractTop: "length (snd (extractTop cmp xs)) = length xs - 1"
  by (cases xs rule: rev_cases) (auto simp: extractTop_def Let_def)

lemma length_updateQuantity [simp]: "length (updateQuantity xs i q) = length xs"
  by (induction xs) auto

lemma updateQuantity_head:
  "updateQuantity (x # xs) (oid x) q = x\<lparr>quantity := q\<rparr> # xs"
  by simp

lemma opposingHeap_set [simp]: "opposingHeap order (set_opposingHeap order h b) = h"
  by (simp add: opposingHeap_def set_opposingHeap_def)

lemma opposingHeap_emit [simp]: "opposingHeap order (emit e d b) = opposingHeap order b"
  by (simp add: opposingHeap_def emit_def)

lemma quantityPrecision_emit [simp]: "quantityPrecision (emit e d b) = quantityPrecision b"
  by (simp add: emit_def)

lemma quantityPrecision_set_opposing [simp]:
  "quantityPrecision (set_opposingHeap order h b) = quantityPrecision b"
  by (simp add: set_opposingHeap_def)

lemma quantityPrecision_fill_best [simp]:
  "quantityPrecision (fill_best b order remainder best) = quantityPrecision b"
  by (simp add: fill_best_def Let_def)

text \<open>The quantity left in \<open>best\<close> after a fill.\<close>

definition best_left :: "book \<Rightarrow> order \<Rightarrow> order \<Rightarrow> number" where
  "best_left b remainder best =
     round_dec (js_sub (quantity best) (tradedQty b remainder best)) (quantityPrecision b)"

lemma opposingHeap_fill_best:
  "opposingHeap order b = best # rest \<Longrightarrow>
   opposingHeap order (fill_best b order remainder best) =
     (if best_left b remainder best = Num 0
      then snd (extractTop (opposingCmp order) (best\<lparr>quantity := Num 0\<rparr> # rest))
      else best\<lparr>quantity := best_left b remainder best\<rparr> # rest)"
  by (simp add: fill_best_def Let_def best_left_def)

subsection \<open>The loop of \<open>#match\<close> ends\<close>

text \<open>
  \<open>settles d r q\<close>: a fill of the remainder \<open>r\<close> against a resting quantity \<open>q\<close> removes
  the resting order or leaves a remainder that is not positive, which ends the loop. After
  any fill, the next one settles: both quantities have been rounded, or one of them is not
  finite. So an iteration removes the top of the opposing heap, or ends the loop, or is
  followed by an iteration that does one of the two.
\<close>

definition settles :: "nat \<Rightarrow> number \<Rightarrow> number \<Rightarrow> bool" where
  "settles d r q =
     (let t = round_dec (js_min r q) d
      in round_dec (js_sub q t) d = Num 0 \<or> \<not> js_lt (Num 0) (round_dec (js_sub r t) d))"

lemma round_rat_idem [simp]: "round_rat (round_rat x d) d = round_rat x d"
  by (rule round_rat_aligned) simp

lemma settles_aligned: "aligned x d \<Longrightarrow> aligned y d \<Longrightarrow> settles d (Num x) (Num y)"
proof -
  assume a: "aligned x d" "aligned y d"
  have m: "round_rat x d = x" "round_rat y d = y" using a by (simp_all add: round_rat_aligned)
  show ?thesis
  proof (cases "x \<le> y")
    case True
    then show ?thesis by (simp add: settles_def Let_def m min_def)
  next
    case False
    then show ?thesis by (simp add: settles_def Let_def m min_def)
  qed
qed

lemma settles_next:
  assumes "t = round_dec (js_min r q) d"
    and "js_lt (Num 0) (round_dec (js_sub r t) d)"
    and "round_dec (js_sub q t) d \<noteq> Num 0"
  shows "settles d (round_dec (js_sub r t) d) (round_dec (js_sub q t) d)"
proof (cases r)
  case (Num x)
  show ?thesis
  proof (cases q)
    case (Num y)
    show ?thesis using assms \<open>r = Num x\<close> Num by (simp add: settles_aligned)
  next
    case NaN
    then show ?thesis using assms \<open>r = Num x\<close> by (simp add: js_min_def)
  next
    case Infinity
    then show ?thesis using assms \<open>r = Num x\<close> by (simp add: js_min_def settles_def Let_def)
  next
    case NegInfinity
    then show ?thesis using assms \<open>r = Num x\<close> by (simp add: js_min_def settles_def Let_def)
  qed
next
  case NaN
  then show ?thesis using assms by (simp add: js_min_def)
next
  case Infinity
  show ?thesis
  proof (cases q)
    case (Num y)
    then show ?thesis using assms \<open>r = Infinity\<close>
      by (simp add: js_min_def settles_def Let_def round_rat_aligned)
  next
    case NaN
    then show ?thesis using assms \<open>r = Infinity\<close> by (simp add: js_min_def)
  next
    case Infinity
    then show ?thesis using assms \<open>r = Infinity\<close> by (simp add: js_min_def)
  next
    case NegInfinity
    then show ?thesis using assms \<open>r = Infinity\<close> by (simp add: js_min_def settles_def Let_def)
  qed
next
  case NegInfinity
  then show ?thesis using assms by (cases q) (simp_all add: js_min_def)
qed

definition match_measure :: "order \<Rightarrow> order \<Rightarrow> book \<Rightarrow> nat" where
  "match_measure order remainder b =
     2 * length (opposingHeap order b) +
     (if \<not> js_lt (Num 0) (quantity remainder) then 0
      else (case opposingHeap order b of [] \<Rightarrow> 1
            | best # _ \<Rightarrow>
                if settles (quantityPrecision b) (quantity remainder) (quantity best)
                then 1 else 2))"

lemma match_measure_decreases:
  assumes "js_lt (Num 0) (quantity remainder)" and "opposingHeap order b = best # rest"
  shows "match_measure order (fill_remainder b remainder best) (fill_best b order remainder best)
           < match_measure order remainder b"
proof (cases "best_left b remainder best = Num 0")
  case True
  then have "length (opposingHeap order (fill_best b order remainder best)) = length rest"
    using assms(2) by (simp add: opposingHeap_fill_best length_extractTop)
  then show ?thesis using assms
    by (simp add: match_measure_def split: list.splits)
next
  case False
  let ?d = "quantityPrecision b"
  let ?t = "round_dec (js_min (quantity remainder) (quantity best)) ?d"
  have heap': "opposingHeap order (fill_best b order remainder best)
      = best\<lparr>quantity := best_left b remainder best\<rparr> # rest"
    using False assms(2) by (simp add: opposingHeap_fill_best)
  have bl: "best_left b remainder best = round_dec (js_sub (quantity best) ?t) ?d"
    by (simp add: best_left_def tradedQty_def)
  have rl: "quantity (fill_remainder b remainder best)
      = round_dec (js_sub (quantity remainder) ?t) ?d"
    by (simp add: fill_remainder_def tradedQty_def)
  show ?thesis
  proof (cases "js_lt (Num 0) (quantity (fill_remainder b remainder best))")
    case False
    then show ?thesis using assms heap' by (simp add: match_measure_def)
  next
    case True
    have now: "\<not> settles ?d (quantity remainder) (quantity best)"
      using True \<open>best_left b remainder best \<noteq> Num 0\<close> by (simp add: settles_def Let_def bl rl)
    have "settles ?d (round_dec (js_sub (quantity remainder) ?t) ?d)
        (round_dec (js_sub (quantity best) ?t) ?d)"
      using settles_next [OF refl] True \<open>best_left b remainder best \<noteq> Num 0\<close>
      by (simp add: bl rl)
    then have nxt: "settles ?d (quantity (fill_remainder b remainder best))
        (best_left b remainder best)"
      by (simp add: bl rl)
    show ?thesis using assms heap' now nxt True by (simp add: match_measure_def)
  qed
qed

text \<open>The \<open>while\<close> loop of \<open>#match\<close>; \<open>trs\<close> is the array \<open>trades\<close>.\<close>

function match_loop ::
  "clock \<Rightarrow> nat \<Rightarrow> order \<Rightarrow> order \<Rightarrow> trade list \<Rightarrow> book \<Rightarrow> trade list \<times> order \<times> book" where
  "match_loop clk k order remainder trs b =
     (if js_lt (Num 0) (quantity remainder) \<and> opposingHeap order b \<noteq> [] then
        (let best = hd (opposingHeap order b) in
         if \<not> priceMatches order remainder best then (trs, remainder, b)
         else match_loop clk (k + 2) order (fill_remainder b remainder best)
                (trs @ [make_trade clk k b order remainder best])
                (fill_best b order remainder best))
      else (trs, remainder, b))"
  by pat_completeness auto
termination
proof (relation "measure (\<lambda>(clk, k, order, remainder, trs, b). match_measure order remainder b)")
  show "wf (measure (\<lambda>(clk, k, order, remainder, trs, b). match_measure order remainder b))"
    by simp
next
  fix clk :: clock and k :: nat and order remainder :: order and trs :: "trade list"
    and b :: book and x :: order
  assume a: "js_lt (Num 0) (quantity remainder) \<and> opposingHeap order b \<noteq> []"
    and x: "x = hd (opposingHeap order b)"
  then have "opposingHeap order b = x # tl (opposingHeap order b)" by simp
  then have "match_measure order (fill_remainder b remainder x) (fill_best b order remainder x)
           < match_measure order remainder b"
    using a match_measure_decreases by blast
  then show "((clk, k + 2, order, fill_remainder b remainder x,
       trs @ [make_trade clk k b order remainder x], fill_best b order remainder x),
      clk, k, order, remainder, trs, b)
     \<in> measure (\<lambda>(clk, k, order, remainder, trs, b). match_measure order remainder b)"
    by simp
qed

declare match_loop.simps [simp del]

definition match :: "clock \<Rightarrow> nat \<Rightarrow> order \<Rightarrow> book \<Rightarrow> trade list \<times> order \<times> book" where
  "match clk k order b = match_loop clk k order order [] b"

subsection \<open>The public operations\<close>

definition insertOrder :: "order \<Rightarrow> book \<Rightarrow> book" where
  "insertOrder order b =
     (if side order = BUY then b\<lparr>bids := insert_heap bidCmp order (bids b)\<rparr>
      else b\<lparr>asks := insert_heap askCmp order (asks b)\<rparr>)"

record add_result =
  res_trades :: "trade list"
  res_remainder :: "order option"
  res_status :: OrderStatus

text \<open>
  \<open>addOrder\<close> returns the error it throws or its result, and the book it leaves. The
  object \<open>remainder\<close> that is inserted in the heap is the one handed to the
  \<open>ORDER_ADDED\<close> hook and returned; the model hands out its value, so the caller is
  taken not to change it afterwards.
\<close>

definition addOrder :: "clock \<Rightarrow> raw_order \<Rightarrow> book \<Rightarrow> (error + add_result) \<times> book" where
  "addOrder clk order b =
     (case validateOrder order of
        Some e \<Rightarrow> (Inl e, b)
      | None \<Rightarrow>
          (let normalised = normalise clk order b;
               (trs, remainder, b1) = match clk (clock_reads order) normalised b;
               b2 = b1\<lparr>trades := trades b1 @ trs\<rparr>;
               b3 = fold (\<lambda>t. emit TRADE (PTrade t)) trs b2;
               left = js_lt (Num 0) (quantity remainder);
               remainder = (if left
                  then remainder\<lparr>status := (if length trs > 0 then PARTIALLY_FILLED else OPEN)\<rparr>
                  else remainder);
               b4 = (if left \<and> otype remainder = LIMIT
                  then emit ORDER_ADDED (POrder remainder) (insertOrder remainder b3)
                  else b3)
           in (Inr \<lparr>res_trades = trs,
                    res_remainder = (if left then Some remainder else None),
                    res_status = (if left then status remainder else FILLED)\<rparr>,
               b4)))"

definition cancelOrder :: "string \<Rightarrow> book \<Rightarrow> order option \<times> book" where
  "cancelOrder orderId b =
     (case removeById bidCmp orderId (bids b) of
        (Some c, h) \<Rightarrow>
          (let cancelled = c\<lparr>status := CANCELLED\<rparr>
           in (Some cancelled, emit ORDER_REMOVED (POrder cancelled) (b\<lparr>bids := h\<rparr>)))
      | (None, _) \<Rightarrow>
          (case removeById askCmp orderId (asks b) of
             (Some c, h) \<Rightarrow>
               (let cancelled = c\<lparr>status := CANCELLED\<rparr>
                in (Some cancelled, emit ORDER_REMOVED (POrder cancelled) (b\<lparr>asks := h\<rparr>)))
           | (None, _) \<Rightarrow> (None, b)))"

definition applyRemoteOrder :: "clock \<Rightarrow> raw_order \<Rightarrow> book \<Rightarrow> (error + add_result) \<times> book" where
  "applyRemoteOrder clk order b = addOrder clk (order\<lparr>r_remote := Some True\<rparr>) b"

definition bestBid :: "book \<Rightarrow> order option" where
  "bestBid b = peek (bids b)"

definition bestAsk :: "book \<Rightarrow> order option" where
  "bestAsk b = peek (asks b)"

definition spread :: "book \<Rightarrow> number option" where
  "spread b =
     (case (bestBid b, bestAsk b) of
        (Some bb, Some ba) \<Rightarrow>
          Some (round_dec (js_sub (num (price ba)) (num (price bb))) (pricePrecision b))
      | _ \<Rightarrow> None)"

definition getBids :: "book \<Rightarrow> order list" where
  "getBids b = bids b"

definition getAsks :: "book \<Rightarrow> order list" where
  "getAsks b = asks b"

definition getTrades :: "book \<Rightarrow> trade list" where
  "getTrades b = trades b"

record snapshot =
  s_pair :: string
  s_timestamp :: int
  s_bids :: "order list"
  s_asks :: "order list"
  s_bestBid :: "order option"
  s_bestAsk :: "order option"
  s_spread :: "number option"

definition getSnapshot :: "clock \<Rightarrow> book \<Rightarrow> snapshot" where
  "getSnapshot clk b =
     \<lparr>s_pair = pair b,
      s_timestamp = clk 0,
      s_bids = map (\<lambda>x. x) (bids b),
      s_asks = map (\<lambda>x. x) (asks b),
      s_bestBid = bestBid b,
      s_bestAsk = bestAsk b,
      s_spread = spread b\<rparr>"

text \<open>
  \<open>loadSnapshot\<close> checks the pair and nothing else, and inserts the order objects of the
  snapshot themselves. The model inserts their values: the book is taken to be the only
  owner of these objects from then on (as it is when the snapshot has come over the
  network), so neither the caller nor another book that loaded the same snapshot changes
  them, and no object occurs twice in the snapshot.
\<close>

definition loadSnapshot :: "snapshot \<Rightarrow> book \<Rightarrow> error + book" where
  "loadSnapshot snap b =
     (if s_pair snap \<noteq> pair b then Inl PairMismatch
      else Inr (b\<lparr>bids := fold (insert_heap bidCmp) (s_bids snap) [],
                  asks := fold (insert_heap askCmp) (s_asks snap) []\<rparr>))"

section \<open>Basic facts\<close>

lemma match_loop_empty:
  "opposingHeap order b = [] \<Longrightarrow> match_loop clk k order remainder trs b = (trs, remainder, b)"
  by (subst match_loop.simps) simp


section \<open>The heap order\<close>

text \<open>
  A comparator that agrees, on the orders of a heap, with a linear order on keys keeps the
  array in heap order: the key of every element is at least the key of its parent.
  \<open>up_inv\<close> and \<open>down_inv\<close> are the loop invariants of \<open>#bubbleUp\<close> and
  \<open>#bubbleDown\<close>: the heap order holds except at one index.
\<close>

definition key_heap :: "(order \<Rightarrow> 'k::linorder) \<Rightarrow> order list \<Rightarrow> bool" where
  "key_heap key xs = (\<forall>i. 0 < i \<and> i < length xs \<longrightarrow> key (xs ! ((i - 1) div 2)) \<le> key (xs ! i))"

definition cmp_key :: "comparator \<Rightarrow> (order \<Rightarrow> 'k::linorder) \<Rightarrow> order set \<Rightarrow> bool" where
  "cmp_key cmp key S = (\<forall>a\<in>S. \<forall>b\<in>S. (negative (cmp a b)) = (key a < key b))"

definition up_inv :: "(order \<Rightarrow> 'k::linorder) \<Rightarrow> order list \<Rightarrow> nat \<Rightarrow> bool" where
  "up_inv key xs i =
     ((\<forall>j. 0 < j \<and> j < length xs \<and> j \<noteq> i \<longrightarrow> key (xs ! ((j - 1) div 2)) \<le> key (xs ! j)) \<and>
      (\<forall>c. 0 < i \<and> 0 < c \<and> c < length xs \<and> (c - 1) div 2 = i \<longrightarrow>
           key (xs ! ((i - 1) div 2)) \<le> key (xs ! c)))"

definition down_inv :: "(order \<Rightarrow> 'k::linorder) \<Rightarrow> order list \<Rightarrow> nat \<Rightarrow> bool" where
  "down_inv key xs i =
     ((\<forall>j. 0 < j \<and> j < length xs \<and> (j - 1) div 2 \<noteq> i \<longrightarrow>
           key (xs ! ((j - 1) div 2)) \<le> key (xs ! j)) \<and>
      (\<forall>c. 0 < i \<and> 0 < c \<and> c < length xs \<and> (c - 1) div 2 = i \<longrightarrow>
           key (xs ! ((i - 1) div 2)) \<le> key (xs ! c)))"

lemma parent_less: "0 < i \<Longrightarrow> (i - 1) div 2 < (i::nat)"
  by arith

lemma set_swap [simp]: "i < length xs \<Longrightarrow> j < length xs \<Longrightarrow> set (swap xs i j) = set xs"
  unfolding swap_def by (metis mset_swap set_mset_mset)

lemma mset_swap' [simp]: "i < length xs \<Longrightarrow> j < length xs \<Longrightarrow> mset (swap xs i j) = mset xs"
  unfolding swap_def by (simp add: mset_swap)

lemma nth_swap:
  "i < length xs \<Longrightarrow> j < length xs \<Longrightarrow> k < length xs \<Longrightarrow>
   swap xs i j ! k = (if k = i then xs ! j else if k = j then xs ! i else xs ! k)"
  by (auto simp: swap_def nth_list_update)

lemma mset_bubbleUp [simp]: "idx < length xs \<Longrightarrow> mset (bubbleUp cmp xs idx) = mset xs"
proof (induction cmp xs idx rule: bubbleUp.induct)
  case (1 cmp xs idx)
  show ?case
  proof (cases "idx > 0 \<and> negative (cmp (xs ! idx) (xs ! ((idx - 1) div 2)))")
    case True
    have p: "(idx - 1) div 2 < length xs" using "1.prems" by simp
    have "mset (bubbleUp cmp (swap xs idx ((idx - 1) div 2)) ((idx - 1) div 2))
        = mset (swap xs idx ((idx - 1) div 2))"
      using "1.IH" True p by simp
    then show ?thesis using True p "1.prems" by (subst bubbleUp.simps) (simp add: Let_def)
  next
    case False
    then show ?thesis by (subst bubbleUp.simps) (auto simp: Let_def)
  qed
qed

lemma mset_bubbleDown [simp]: "mset (bubbleDown cmp xs idx) = mset xs"
proof (induction cmp xs idx rule: bubbleDown.induct)
  case (1 cmp xs idx)
  show ?case
  proof (cases "bestChild cmp xs idx = idx")
    case True
    then show ?thesis by (subst bubbleDown.simps) (simp add: Let_def)
  next
    case False
    then have b: "idx < bestChild cmp xs idx \<and> bestChild cmp xs idx < length xs"
      using bestChild_bounds by blast
    have "mset (bubbleDown cmp (swap xs idx (bestChild cmp xs idx)) (bestChild cmp xs idx))
        = mset (swap xs idx (bestChild cmp xs idx))"
      using "1.IH" False by simp
    then show ?thesis using False b by (subst bubbleDown.simps) (simp add: Let_def)
  qed
qed

lemma set_bubbleUp [simp]: "idx < length xs \<Longrightarrow> set (bubbleUp cmp xs idx) = set xs"
  by (metis mset_bubbleUp set_mset_mset)

lemma set_bubbleDown [simp]: "set (bubbleDown cmp xs idx) = set xs"
  by (metis mset_bubbleDown set_mset_mset)

lemma cmp_keyD:
  "cmp_key cmp key (set xs) \<Longrightarrow> i < length xs \<Longrightarrow> j < length xs \<Longrightarrow>
   (negative (cmp (xs ! i) (xs ! j))) = (key (xs ! i) < key (xs ! j))"
  by (simp add: cmp_key_def)

lemma up_inv_swap:
  fixes key :: "order \<Rightarrow> 'k::linorder"
  assumes inv: "up_inv key xs i" and i: "0 < i" "i < length xs"
    and lt: "key (xs ! i) < key (xs ! ((i - 1) div 2))"
  shows "up_inv key (swap xs i ((i - 1) div 2)) ((i - 1) div 2)"
proof -
  let ?p = "(i - 1) div 2"
  let ?ys = "swap xs i ?p"
  have p: "?p < i" "?p < length xs" using i by auto
  have e: "\<And>j. 0 < j \<Longrightarrow> j < length xs \<Longrightarrow> j \<noteq> i \<Longrightarrow> key (xs ! ((j - 1) div 2)) \<le> key (xs ! j)"
    using inv by (simp add: up_inv_def)
  have c: "\<And>c. 0 < c \<Longrightarrow> c < length xs \<Longrightarrow> (c - 1) div 2 = i \<Longrightarrow> key (xs ! ?p) \<le> key (xs ! c)"
    using inv i by (simp add: up_inv_def)
  have part1: "key (?ys ! ((j - 1) div 2)) \<le> key (?ys ! j)"
    if j: "0 < j" "j < length ?ys" "j \<noteq> ?p" for j
  proof -
    have jl: "j < length xs" "(j - 1) div 2 < length xs" using j by auto
    consider "j = i" | "j \<noteq> i" "(j - 1) div 2 = ?p" | "j \<noteq> i" "(j - 1) div 2 = i"
      | "j \<noteq> i" "(j - 1) div 2 \<noteq> ?p" "(j - 1) div 2 \<noteq> i" by blast
    then show ?thesis
    proof cases
      case 1
      then show ?thesis using lt p i by (simp add: nth_swap)
    next
      case 2
      then have "key (xs ! ?p) \<le> key (xs ! j)" using e [of j] j jl by simp
      then show ?thesis using 2 lt p i j jl by (simp add: nth_swap)
    next
      case 3
      then have "key (xs ! ?p) \<le> key (xs ! j)" using c [of j] j jl by simp
      then show ?thesis using 3 p i j jl by (simp add: nth_swap)
    next
      case 4
      then show ?thesis using e [of j] p i j jl by (simp add: nth_swap)
    qed
  qed
  have part2: "key (?ys ! ((?p - 1) div 2)) \<le> key (?ys ! c)"
    if cc: "0 < ?p" "0 < c" "c < length ?ys" "(c - 1) div 2 = ?p" for c
  proof -
    have cl: "c < length xs" using cc by simp
    have pp0: "(?p - 1) div 2 < ?p" using cc(1) by (rule parent_less)
    have pp: "(?p - 1) div 2 < ?p" "(?p - 1) div 2 < length xs" using pp0 p by auto
    have g: "key (xs ! ((?p - 1) div 2)) \<le> key (xs ! ?p)" using e [of ?p] cc p by simp
    have cp: "c \<noteq> ?p" using cc by auto
    show ?thesis
    proof (cases "c = i")
      case True
      then show ?thesis using g pp p i by (simp add: nth_swap)
    next
      case False
      then have "key (xs ! ?p) \<le> key (xs ! c)" using e [of c] cc cl by simp
      then show ?thesis using False g pp p i cl cp by (simp add: nth_swap)
    qed
  qed
  show ?thesis unfolding up_inv_def using part1 part2 by blast
qed

lemma bubbleUp_heap:
  fixes key :: "order \<Rightarrow> 'k::linorder"
  shows "cmp_key cmp key (set xs) \<Longrightarrow> idx < length xs \<Longrightarrow> up_inv key xs idx \<Longrightarrow>
    key_heap key (bubbleUp cmp xs idx)"
proof (induction cmp xs idx rule: bubbleUp.induct)
  case (1 cmp xs idx)
  let ?p = "(idx - 1) div 2"
  show ?case
  proof (cases "idx > 0 \<and> negative (cmp (xs ! idx) (xs ! ?p))")
    case True
    have p: "?p < length xs" using "1.prems" by simp
    have lt: "key (xs ! idx) < key (xs ! ?p)"
      using True cmp_keyD [OF "1.prems"(1) "1.prems"(2) p] by simp
    have inv': "up_inv key (swap xs idx ?p) ?p"
      using up_inv_swap [OF "1.prems"(3) _ "1.prems"(2) lt] True by simp
    have "key_heap key (bubbleUp cmp (swap xs idx ?p) ?p)"
      using "1.IH" [OF _ refl _ _ _ inv'] True p "1.prems" by simp
    then show ?thesis using True by (subst bubbleUp.simps) (simp add: Let_def)
  next
    case False
    have same: "bubbleUp cmp xs idx = xs"
      using False by (subst bubbleUp.simps) (auto simp: Let_def)
    have "key_heap key xs"
      unfolding key_heap_def
    proof (intro allI impI)
      fix j assume j: "0 < j \<and> j < length xs"
      show "key (xs ! ((j - 1) div 2)) \<le> key (xs ! j)"
      proof (cases "j = idx")
        case True
        then have "\<not> negative (cmp (xs ! idx) (xs ! ?p))" using False j by simp
        moreover have "?p < length xs" using "1.prems" by simp
        ultimately have "\<not> key (xs ! idx) < key (xs ! ?p)"
          using cmp_keyD [OF "1.prems"(1) "1.prems"(2)] by simp
        then show ?thesis using True by simp
      next
        case False
        then show ?thesis using "1.prems"(3) j by (simp add: up_inv_def)
      qed
    qed
    then show ?thesis using same by simp
  qed
qed


lemma child_cases: "0 < c \<Longrightarrow> (c - 1) div 2 = (i::nat) \<Longrightarrow> c = 2 * i + 1 \<or> c = 2 * i + 2"
  by arith

lemma bestChild_key:
  fixes key :: "order \<Rightarrow> 'k::linorder"
  assumes ck: "cmp_key cmp key (set xs)"
  shows "(bestChild cmp xs idx = idx \<or>
            ((bestChild cmp xs idx = 2 * idx + 1 \<or> bestChild cmp xs idx = 2 * idx + 2) \<and>
             bestChild cmp xs idx < length xs \<and>
             key (xs ! bestChild cmp xs idx) < key (xs ! idx))) \<and>
         (2 * idx + 1 < length xs \<longrightarrow> key (xs ! bestChild cmp xs idx) \<le> key (xs ! (2 * idx + 1))) \<and>
         (2 * idx + 2 < length xs \<longrightarrow> key (xs ! bestChild cmp xs idx) \<le> key (xs ! (2 * idx + 2)))"
proof -
  define l where "l = 2 * idx + 1"
  define r where "r = 2 * idx + 2"
  define b1 where "b1 = (if l < length xs \<and> negative (cmp (xs ! l) (xs ! idx)) then l else idx)"
  have b: "bestChild cmp xs idx = (if r < length xs \<and> negative (cmp (xs ! r) (xs ! b1)) then r else b1)"
    by (simp add: bestChild_def Let_def b1_def l_def r_def)
  have il: "l < length xs \<Longrightarrow> idx < length xs" by (simp add: l_def)
  have lr: "r < length xs \<Longrightarrow> l < length xs" by (simp add: l_def r_def)
  have kl: "l < length xs \<Longrightarrow> (negative (cmp (xs ! l) (xs ! idx))) = (key (xs ! l) < key (xs ! idx))"
    using cmp_keyD [OF ck] il by blast
  have kr: "r < length xs \<Longrightarrow> (negative (cmp (xs ! r) (xs ! idx))) = (key (xs ! r) < key (xs ! idx))"
    using cmp_keyD [OF ck] il lr by blast
  have krl: "r < length xs \<Longrightarrow> (negative (cmp (xs ! r) (xs ! l))) = (key (xs ! r) < key (xs ! l))"
    using cmp_keyD [OF ck] lr by blast
  have b1': "b1 = (if l < length xs \<and> key (xs ! l) < key (xs ! idx) then l else idx)"
    using kl by (auto simp: b1_def)
  have b': "bestChild cmp xs idx = (if r < length xs \<and> key (xs ! r) < key (xs ! b1) then r else b1)"
  proof (cases "r < length xs")
    case True
    have "(negative (cmp (xs ! r) (xs ! b1))) = (key (xs ! r) < key (xs ! b1))"
      using kr [OF True] krl [OF True] by (simp add: b1_def)
    then show ?thesis using b by simp
  next
    case False
    then show ?thesis using b by simp
  qed
  have goal: "(bestChild cmp xs idx = idx \<or>
            ((bestChild cmp xs idx = l \<or> bestChild cmp xs idx = r) \<and>
             bestChild cmp xs idx < length xs \<and>
             key (xs ! bestChild cmp xs idx) < key (xs ! idx))) \<and>
         (l < length xs \<longrightarrow> key (xs ! bestChild cmp xs idx) \<le> key (xs ! l)) \<and>
         (r < length xs \<longrightarrow> key (xs ! bestChild cmp xs idx) \<le> key (xs ! r))"
  proof (cases "l < length xs \<and> key (xs ! l) < key (xs ! idx)")
    case True
    then have e1: "b1 = l" using b1' by simp
    show ?thesis
    proof (cases "r < length xs \<and> key (xs ! r) < key (xs ! l)")
      case rr: True
      then have "bestChild cmp xs idx = r" using b' e1 by simp
      then show ?thesis using True rr by auto
    next
      case rr: False
      then have "bestChild cmp xs idx = l" using b' e1 by auto
      then show ?thesis using True rr by auto
    qed
  next
    case False
    then have e1: "b1 = idx" using b1' by auto
    show ?thesis
    proof (cases "r < length xs \<and> key (xs ! r) < key (xs ! idx)")
      case rr: True
      then have l: "l < length xs" using lr by simp
      have "bestChild cmp xs idx = r" using b' e1 rr by simp
      then show ?thesis using False rr l by auto
    next
      case rr: False
      then have "bestChild cmp xs idx = idx" using b' e1 by auto
      then show ?thesis using False rr by auto
    qed
  qed
  then show ?thesis unfolding l_def r_def .
qed


lemma down_inv_swap:
  fixes key :: "order \<Rightarrow> 'k::linorder"
  assumes ck: "cmp_key cmp key (set xs)" and inv: "down_inv key xs i"
    and ne: "bestChild cmp xs i \<noteq> i"
  shows "down_inv key (swap xs i (bestChild cmp xs i)) (bestChild cmp xs i)"
proof -
  define b where "b = bestChild cmp xs i"
  let ?ys = "swap xs i b"
  have bk: "(b = 2 * i + 1 \<or> b = 2 * i + 2) \<and> b < length xs \<and> key (xs ! b) < key (xs ! i)"
    and bl: "2 * i + 1 < length xs \<Longrightarrow> key (xs ! b) \<le> key (xs ! (2 * i + 1))"
    and br: "2 * i + 2 < length xs \<Longrightarrow> key (xs ! b) \<le> key (xs ! (2 * i + 2))"
    using bestChild_key [OF ck, of i] ne unfolding b_def by blast+
  have pb: "(b - 1) div 2 = i" using bk by auto
  have ib: "i < b" "b < length xs" "i < length xs" using bk by auto
  have e: "\<And>j. 0 < j \<Longrightarrow> j < length xs \<Longrightarrow> (j - 1) div 2 \<noteq> i \<Longrightarrow>
      key (xs ! ((j - 1) div 2)) \<le> key (xs ! j)"
    using inv by (simp add: down_inv_def)
  have g: "\<And>c. 0 < i \<Longrightarrow> 0 < c \<Longrightarrow> c < length xs \<Longrightarrow> (c - 1) div 2 = i \<Longrightarrow>
      key (xs ! ((i - 1) div 2)) \<le> key (xs ! c)"
    using inv by (simp add: down_inv_def)
  have part1: "key (?ys ! ((j - 1) div 2)) \<le> key (?ys ! j)"
    if j: "0 < j" "j < length ?ys" "(j - 1) div 2 \<noteq> b" for j
  proof -
    have jl: "j < length xs" using j by simp
    have pj: "(j - 1) div 2 < j" using j(1) by (rule parent_less)
    then have pjl: "(j - 1) div 2 < length xs" using jl by simp
    consider "(j - 1) div 2 = i" "j = b" | "(j - 1) div 2 = i" "j \<noteq> b"
      | "(j - 1) div 2 \<noteq> i" "j = i" | "(j - 1) div 2 \<noteq> i" "j \<noteq> i" by blast
    then show ?thesis
    proof cases
      case 1
      have "key (xs ! b) \<le> key (xs ! i)" using bk less_imp_le by blast
      then show ?thesis using 1 ib by (simp add: nth_swap)
    next
      case 2
      then have "j = 2 * i + 1 \<or> j = 2 * i + 2" using child_cases j(1) by blast
      then have "key (xs ! b) \<le> key (xs ! j)" using bl br jl by auto
      moreover have "j \<noteq> i" using 2 pj by auto
      ultimately show ?thesis using 2 ib jl by (simp add: nth_swap)
    next
      case 3
      then have i0: "0 < i" using j by simp
      have "key (xs ! ((i - 1) div 2)) \<le> key (xs ! b)"
        using g [OF i0 _ ib(2) pb] ib by simp
      moreover have "(i - 1) div 2 \<noteq> b" "(i - 1) div 2 \<noteq> i"
        using parent_less [OF i0] ib by auto
      ultimately show ?thesis using 3 ib pjl by (simp add: nth_swap)
    next
      case 4
      then have "j \<noteq> b" using pb by auto
      then show ?thesis using 4 j e [OF j(1) jl] ib jl pjl by (simp add: nth_swap)
    qed
  qed
  have part2: "key (?ys ! ((b - 1) div 2)) \<le> key (?ys ! c)"
    if c: "0 < c" "c < length ?ys" "(c - 1) div 2 = b" for c
  proof -
    have cl: "c < length xs" using c by simp
    have "b < c" using parent_less [OF c(1)] c(3) by simp
    then have cn: "c \<noteq> i" "c \<noteq> b" using ib by auto
    have "key (xs ! b) \<le> key (xs ! c)" using e [OF c(1) cl] c(3) ib by auto
    then show ?thesis using pb cn ib cl by (simp add: nth_swap)
  qed
  show ?thesis unfolding down_inv_def b_def [symmetric] using part1 part2 by blast
qed

lemma bubbleDown_heap:
  fixes key :: "order \<Rightarrow> 'k::linorder"
  shows "cmp_key cmp key (set xs) \<Longrightarrow> down_inv key xs idx \<Longrightarrow>
    key_heap key (bubbleDown cmp xs idx)"
proof (induction cmp xs idx rule: bubbleDown.induct)
  case (1 cmp xs idx)
  show ?case
  proof (cases "bestChild cmp xs idx = idx")
    case True
    have same: "bubbleDown cmp xs idx = xs"
      using True by (subst bubbleDown.simps) (simp add: Let_def)
    have ch: "2 * idx + 1 < length xs \<Longrightarrow> key (xs ! idx) \<le> key (xs ! (2 * idx + 1))"
      "2 * idx + 2 < length xs \<Longrightarrow> key (xs ! idx) \<le> key (xs ! (2 * idx + 2))"
      using bestChild_key [OF "1.prems"(1), of idx] True by auto
    have "key_heap key xs"
      unfolding key_heap_def
    proof (intro allI impI)
      fix j assume j: "0 < j \<and> j < length xs"
      show "key (xs ! ((j - 1) div 2)) \<le> key (xs ! j)"
      proof (cases "(j - 1) div 2 = idx")
        case True
        then have "j = 2 * idx + 1 \<or> j = 2 * idx + 2" using child_cases j by blast
        then show ?thesis using ch j True by auto
      next
        case False
        then show ?thesis using "1.prems"(2) j by (simp add: down_inv_def)
      qed
    qed
    then show ?thesis using same by simp
  next
    case False
    then have b: "bestChild cmp xs idx < length xs" "idx < bestChild cmp xs idx"
      using bestChild_bounds by blast+
    have ck': "cmp_key cmp key (set (swap xs idx (bestChild cmp xs idx)))"
      using "1.prems"(1) b by simp
    have "key_heap key (bubbleDown cmp (swap xs idx (bestChild cmp xs idx)) (bestChild cmp xs idx))"
      using "1.IH" [OF refl False ck' down_inv_swap [OF "1.prems"(1,2) False]] .
    then show ?thesis using False by (subst bubbleDown.simps) (simp add: Let_def)
  qed
qed


lemma key_heap_imp_down_inv:
  fixes key :: "order \<Rightarrow> 'k::linorder"
  assumes "key_heap key xs"
  shows "down_inv key xs i"
proof -
  have e: "\<And>j. 0 < j \<Longrightarrow> j < length xs \<Longrightarrow> key (xs ! ((j - 1) div 2)) \<le> key (xs ! j)"
    using assms by (simp add: key_heap_def)
  have "key (xs ! ((i - 1) div 2)) \<le> key (xs ! c)"
    if c: "0 < i" "0 < c" "c < length xs" "(c - 1) div 2 = i" for c
  proof -
    have "i < c" using parent_less [OF c(2)] c(4) by simp
    then have "key (xs ! ((i - 1) div 2)) \<le> key (xs ! i)" using e [of i] c by simp
    moreover have "key (xs ! i) \<le> key (xs ! c)" using e [of c] c by simp
    ultimately show ?thesis by (rule order_trans)
  qed
  then show ?thesis unfolding down_inv_def using e by blast
qed

lemma key_heap_Nil [simp]: "key_heap key []"
  by (simp add: key_heap_def)

lemma key_heap_top:
  fixes key :: "order \<Rightarrow> 'k::linorder"
  assumes "key_heap key xs"
  shows "i < length xs \<Longrightarrow> key (xs ! 0) \<le> key (xs ! i)"
proof (induction i rule: less_induct)
  case (less i)
  show ?case
  proof (cases "i = 0")
    case True
    then show ?thesis by simp
  next
    case False
    then have p: "(i - 1) div 2 < i" by (simp add: parent_less)
    have "key (xs ! 0) \<le> key (xs ! ((i - 1) div 2))" using less p by simp
    moreover have "key (xs ! ((i - 1) div 2)) \<le> key (xs ! i)"
      using assms False less.prems by (simp add: key_heap_def)
    ultimately show ?thesis by (rule order_trans)
  qed
qed

lemma key_heap_hd:
  fixes key :: "order \<Rightarrow> 'k::linorder"
  assumes "key_heap key (x # xs)" and "y \<in> set (x # xs)"
  shows "key x \<le> key y"
proof -
  obtain i where "i < length (x # xs)" "(x # xs) ! i = y"
    using assms(2) by (meson in_set_conv_nth)
  then show ?thesis using key_heap_top [OF assms(1), of i] by simp
qed

lemma insert_heap_key_heap:
  fixes key :: "order \<Rightarrow> 'k::linorder"
  assumes ck: "cmp_key cmp key (insert item (set xs))" and h: "key_heap key xs"
  shows "key_heap key (insert_heap cmp item xs)"
proof -
  have e: "\<And>j. 0 < j \<Longrightarrow> j < length xs \<Longrightarrow> key (xs ! ((j - 1) div 2)) \<le> key (xs ! j)"
    using h by (simp add: key_heap_def)
  have "up_inv key (xs @ [item]) (length xs)"
    unfolding up_inv_def
  proof (intro conjI allI impI)
    fix j assume j: "0 < j \<and> j < length (xs @ [item]) \<and> j \<noteq> length xs"
    then have jl: "j < length xs" by simp
    then have "(j - 1) div 2 < length xs" using parent_less [of j] j by simp
    then show "key ((xs @ [item]) ! ((j - 1) div 2)) \<le> key ((xs @ [item]) ! j)"
      using e [of j] j jl by (simp add: nth_append)
  next
    fix c assume c: "0 < length xs \<and> 0 < c \<and> c < length (xs @ [item]) \<and> (c - 1) div 2 = length xs"
    then have "length xs < c" using parent_less [of c] by simp
    then have False using c by simp
    then show "key ((xs @ [item]) ! ((length xs - 1) div 2)) \<le> key ((xs @ [item]) ! c)" ..
  qed
  moreover have "cmp_key cmp key (set (xs @ [item]))" using ck by simp
  ultimately show ?thesis
    unfolding insert_heap_def using bubbleUp_heap [of cmp key "xs @ [item]" "length xs"] by simp
qed

lemma mset_insert_heap [simp]: "mset (insert_heap cmp item xs) = add_mset item (mset xs)"
  by (simp add: insert_heap_def)

lemma set_insert_heap [simp]: "set (insert_heap cmp item xs) = insert item (set xs)"
  by (metis mset_insert_heap set_mset_add_mset_insert set_mset_mset)

lemma extractTop_Cons:
  "extractTop cmp (x # xs) =
     (Some x, if xs = [] then [] else bubbleDown cmp (last xs # butlast xs) 0)"
  by (simp add: extractTop_def Let_def)

lemma mset_extractTop: "mset (snd (extractTop cmp (x # xs))) = mset xs"
proof (cases "xs = []")
  case True
  then show ?thesis by (simp add: extractTop_Cons)
next
  case False
  then have "mset (butlast xs @ [last xs]) = mset xs" by simp
  then have "mset (last xs # butlast xs) = mset xs" by simp
  then show ?thesis using False by (simp add: extractTop_Cons)
qed

lemma set_extractTop: "set (snd (extractTop cmp (x # xs))) = set xs"
  by (metis mset_extractTop set_mset_mset)

lemma extractTop_key_heap:
  fixes key :: "order \<Rightarrow> 'k::linorder"
  assumes ck: "cmp_key cmp key (set xs)" and h: "key_heap key (x # xs)"
  shows "key_heap key (snd (extractTop cmp (x # xs)))"
proof (cases "xs = []")
  case True
  then show ?thesis by (simp add: extractTop_Cons)
next
  case False
  let ?ys = "last xs # butlast xs"
  have len: "length ?ys = length xs" using False by simp
  have e: "\<And>j. 0 < j \<Longrightarrow> j < length (x # xs) \<Longrightarrow>
      key ((x # xs) ! ((j - 1) div 2)) \<le> key ((x # xs) ! j)"
    using h by (simp add: key_heap_def)
  have same: "?ys ! j = (x # xs) ! j" if j0: "0 < j" and jlen: "j < length xs" for j
  proof -
    obtain k where k: "j = Suc k" using j0 by (cases j) auto
    then have "k < length (butlast xs)" using jlen by simp
    then have "butlast xs ! k = xs ! k" by (rule nth_butlast)
    then show ?thesis using k by simp
  qed
  have "down_inv key ?ys 0"
    unfolding down_inv_def
  proof (intro conjI allI impI)
    fix j assume j: "0 < j \<and> j < length ?ys \<and> (j - 1) div 2 \<noteq> 0"
    then have jl: "j < length xs" using len by simp
    have p: "0 < (j - 1) div 2" "(j - 1) div 2 < length xs"
      using j jl parent_less [of j] by auto
    show "key (?ys ! ((j - 1) div 2)) \<le> key (?ys ! j)"
      using e [of j] j jl same [of j] same [OF p] by simp
  next
    fix c assume "(0::nat) < 0 \<and> 0 < c \<and> c < length ?ys \<and> (c - 1) div 2 = 0"
    then show "key (?ys ! ((0 - 1) div 2)) \<le> key (?ys ! c)" by simp
  qed
  moreover have "set ?ys = set xs"
  proof -
    have "set (butlast xs @ [last xs]) = set xs" using False by simp
    then show ?thesis by auto
  qed
  ultimately have "key_heap key (bubbleDown cmp ?ys 0)"
    using bubbleDown_heap [of cmp key ?ys 0] ck by simp
  then show ?thesis using False by (simp add: extractTop_Cons)
qed

lemma cmp_key_subset: "cmp_key cmp key S \<Longrightarrow> T \<subseteq> S \<Longrightarrow> cmp_key cmp key T"
  unfolding cmp_key_def by blast

lemma findIndex_Some: "findIndex i xs = Some idx \<Longrightarrow> idx < length xs \<and> oid (xs ! idx) = i"
  by (induction xs arbitrary: idx) (auto split: if_splits)

lemma set_butlast_update: "xs \<noteq> [] \<Longrightarrow> set ((butlast xs)[idx := last xs]) \<subseteq> set xs"
proof -
  assume ne: "xs \<noteq> []"
  have "set ((butlast xs)[idx := last xs]) \<subseteq> insert (last xs) (set (butlast xs))"
    by (rule set_update_subset_insert)
  also have "\<dots> \<subseteq> set xs" using ne by (auto dest: in_set_butlastD)
  finally show ?thesis .
qed

lemma set_removeById: "set (snd (removeById cmp i xs)) \<subseteq> set xs"
proof (cases "findIndex i xs")
  case None
  then show ?thesis by (simp add: removeById_def)
next
  case (Some idx)
  then have ne: "xs \<noteq> []" using findIndex_Some by fastforce
  show ?thesis
  proof (cases "idx < length (butlast xs)")
    case True
    then show ?thesis using Some set_butlast_update [OF ne, of idx]
      by (simp add: removeById_def Let_def)
  next
    case False
    then show ?thesis using Some by (auto simp: removeById_def Let_def dest: in_set_butlastD)
  qed
qed

lemma removeById_result:
  assumes "removeById cmp i xs = (Some c, ys)"
  shows "c \<in> set xs"
proof (cases "findIndex i xs")
  case None
  then show ?thesis using assms by (simp add: removeById_def)
next
  case (Some idx)
  then have "idx < length xs" using findIndex_Some by blast
  moreover have "c = xs ! idx"
    using assms Some by (simp add: removeById_def Let_def split: if_splits)
  ultimately show ?thesis by simp
qed

lemma key_heap_butlast:
  fixes key :: "order \<Rightarrow> 'k::linorder"
  assumes "key_heap key xs"
  shows "key_heap key (butlast xs)"
  unfolding key_heap_def
proof (intro allI impI)
  fix j assume j: "0 < j \<and> j < length (butlast xs)"
  then have p: "(j - 1) div 2 < length (butlast xs)" using parent_less [of j] by simp
  have jl: "j < length xs" using j by (simp add: less_diff_conv)
  have "key (xs ! ((j - 1) div 2)) \<le> key (xs ! j)"
    using assms j jl by (simp add: key_heap_def)
  then show "key (butlast xs ! ((j - 1) div 2)) \<le> key (butlast xs ! j)"
    using p j by (simp add: nth_butlast)
qed

lemma removeById_key_heap:
  fixes key :: "order \<Rightarrow> 'k::linorder"
  assumes ck: "cmp_key cmp key (set xs)" and h: "key_heap key xs"
  shows "key_heap key (snd (removeById cmp i xs))"
proof (cases "findIndex i xs")
  case None
  then show ?thesis using h by (simp add: removeById_def)
next
  case (Some idx)
  then have ne: "xs \<noteq> []" using findIndex_Some by fastforce
  let ?d = "butlast xs"
  show ?thesis
  proof (cases "idx < length ?d")
    case False
    then show ?thesis using Some key_heap_butlast [OF h] by (simp add: removeById_def Let_def)
  next
    case True
    define ys where "ys = ?d[idx := last xs]"
    have res: "snd (removeById cmp i xs) = bubbleDown cmp (bubbleUp cmp ys idx) idx"
      using Some True by (simp add: removeById_def Let_def ys_def)
    have len: "length ys = length ?d" "idx < length ys" using True by (simp_all add: ys_def)
    have cky: "cmp_key cmp key (set ys)"
      using cmp_key_subset [OF ck set_butlast_update [OF ne, of idx]] by (simp add: ys_def)
    have e: "\<And>j. 0 < j \<Longrightarrow> j < length ?d \<Longrightarrow> key (?d ! ((j - 1) div 2)) \<le> key (?d ! j)"
      using key_heap_butlast [OF h] by (simp add: key_heap_def)
    have other: "\<And>j. j \<noteq> idx \<Longrightarrow> ys ! j = ?d ! j" by (simp add: ys_def)
    have at: "ys ! idx = last xs" using True by (simp add: ys_def)
    have below: "key (?d ! ((idx - 1) div 2)) \<le> key (?d ! c)"
      if c0: "0 < idx" and c: "0 < c" "c < length ?d" "(c - 1) div 2 = idx" for c
    proof -
      have "key (?d ! ((idx - 1) div 2)) \<le> key (?d ! idx)" using e [of idx] c0 True by simp
      moreover have "key (?d ! idx) \<le> key (?d ! c)" using e [of c] c by simp
      ultimately show ?thesis by (rule order_trans)
    qed
    have pne: "0 < idx \<Longrightarrow> (idx - 1) div 2 \<noteq> idx" using parent_less [of idx] by simp
    show ?thesis
    proof (cases "0 < idx \<and> key (last xs) < key (?d ! ((idx - 1) div 2))")
      case up: True
      have "up_inv key ys idx"
        unfolding up_inv_def
      proof (intro conjI allI impI)
        fix j assume j: "0 < j \<and> j < length ys \<and> j \<noteq> idx"
        show "key (ys ! ((j - 1) div 2)) \<le> key (ys ! j)"
        proof (cases "(j - 1) div 2 = idx")
          case True
          have "key (?d ! ((idx - 1) div 2)) \<le> key (?d ! j)"
            using below [of j] up j len True by simp
          then have "key (last xs) \<le> key (?d ! j)"
            using up by (meson less_le_trans less_imp_le)
          then show ?thesis using True j at other by simp
        next
          case False
          then show ?thesis using e [of j] j len other by simp
        qed
      next
        fix c assume c: "0 < idx \<and> 0 < c \<and> c < length ys \<and> (c - 1) div 2 = idx"
        then have "c \<noteq> idx" using parent_less [of c] by auto
        then show "key (ys ! ((idx - 1) div 2)) \<le> key (ys ! c)"
          using below [of c] c len other pne by simp
      qed
      then have kh: "key_heap key (bubbleUp cmp ys idx)"
        by (rule bubbleUp_heap [OF cky len(2)])
      have ck2: "cmp_key cmp key (set (bubbleUp cmp ys idx))" using cky len by simp
      have "key_heap key (bubbleDown cmp (bubbleUp cmp ys idx) idx)"
        by (rule bubbleDown_heap [OF ck2 key_heap_imp_down_inv [OF kh]])
      then show ?thesis using res by simp
    next
      case noup: False
      have same: "bubbleUp cmp ys idx = ys"
      proof (cases "0 < idx")
        case False
        then show ?thesis by (subst bubbleUp.simps) simp
      next
        case True
        then have p: "(idx - 1) div 2 < length ys" using len parent_less [of idx] by simp
        have "\<not> key (ys ! idx) < key (ys ! ((idx - 1) div 2))"
          using noup True at other pne by simp
        then have "\<not> negative (cmp (ys ! idx) (ys ! ((idx - 1) div 2)))"
          using cmp_keyD [OF cky len(2) p] by simp
        then show ?thesis by (subst bubbleUp.simps) (simp add: Let_def)
      qed
      have "down_inv key ys idx"
        unfolding down_inv_def
      proof (intro conjI allI impI)
        fix j assume j: "0 < j \<and> j < length ys \<and> (j - 1) div 2 \<noteq> idx"
        show "key (ys ! ((j - 1) div 2)) \<le> key (ys ! j)"
        proof (cases "j = idx")
          case True
          then have "\<not> key (last xs) < key (?d ! ((idx - 1) div 2))" using noup j by simp
          then show ?thesis using True j at other by simp
        next
          case False
          then show ?thesis using e [of j] j len other by simp
        qed
      next
        fix c assume c: "0 < idx \<and> 0 < c \<and> c < length ys \<and> (c - 1) div 2 = idx"
        then have "c \<noteq> idx" using parent_less [of c] by auto
        then show "key (ys ! ((idx - 1) div 2)) \<le> key (ys ! c)"
          using below [of c] c len other pne by simp
      qed
      then have "key_heap key (bubbleDown cmp ys idx)" by (rule bubbleDown_heap [OF cky])
      then show ?thesis using res same by simp
    qed
  qed
qed

section \<open>Invariants of the book\<close>

text \<open>
  Numbers other than \<open>NaN\<close> are linearly ordered; \<open>rank\<close> embeds them in that order
  and \<open>rank_desc\<close> in the reverse order.
\<close>

fun rank :: "number \<Rightarrow> nat \<times> rat" where
  "rank NegInfinity = (0, 0)"
| "rank (Num x) = (1, x)"
| "rank Infinity = (2, 0)"
| "rank NaN = (3, 0)"

fun rank_desc :: "number \<Rightarrow> nat \<times> rat" where
  "rank_desc Infinity = (0, 0)"
| "rank_desc (Num x) = (1, - x)"
| "rank_desc NegInfinity = (2, 0)"
| "rank_desc NaN = (3, 0)"

lemma rank_eq_iff [simp]: "rank a = rank b \<longleftrightarrow> a = b"
  by (cases a; cases b) simp_all

lemma rank_desc_eq_iff [simp]: "rank_desc a = rank_desc b \<longleftrightarrow> a = b"
  by (cases a; cases b) simp_all

lemma js_lt_rank: "a \<noteq> NaN \<Longrightarrow> b \<noteq> NaN \<Longrightarrow> js_lt a b = (rank a < rank b)"
  by (cases a; cases b) simp_all

lemma js_lt_rank_desc: "a \<noteq> NaN \<Longrightarrow> b \<noteq> NaN \<Longrightarrow> js_lt b a = (rank_desc a < rank_desc b)"
  by (cases a; cases b) simp_all








lemma negative_sub: "a \<noteq> NaN \<Longrightarrow> b \<noteq> NaN \<Longrightarrow> negative (js_sub a b) = js_lt a b"
  by (cases a; cases b) (simp_all add: negative_def)

text \<open>
  An order is priced when its price is a number other than \<open>NaN\<close> (not \<open>null\<close>) and its
  timestamp is not \<open>NaN\<close>. On priced orders the two comparators agree with the
  lexicographic order on the keys below: for bids the higher price first, for asks the
  lower price first, and the earlier timestamp first at equal price.
\<close>

definition priced :: "order \<Rightarrow> bool" where
  "priced x = (price x \<noteq> None \<and> price x \<noteq> Some NaN \<and> timestamp x \<noteq> NaN)"

definition bidKey :: "order \<Rightarrow> (nat \<times> rat) \<times> (nat \<times> rat)" where
  "bidKey a = (rank_desc (num (price a)), rank (timestamp a))"

definition askKey :: "order \<Rightarrow> (nat \<times> rat) \<times> (nat \<times> rat)" where
  "askKey a = (rank (num (price a)), rank (timestamp a))"

lemma priced_num: "priced x \<Longrightarrow> num (price x) \<noteq> NaN \<and> price x = Some (num (price x))"
  by (cases "price x") (auto simp: priced_def num_def)

lemma bidCmp_key:
  assumes "priced a" and "priced b"
  shows "negative (bidCmp a b) = (bidKey a < bidKey b)"
proof (cases "price b = price a")
  case True
  have "js_lt (timestamp a) (timestamp b) = (rank (timestamp a) < rank (timestamp b))"
    using assms by (simp add: js_lt_rank priced_def)
  then show ?thesis using True assms
    by (simp add: bidCmp_def bidKey_def js_ne_def negative_sub priced_def)
next
  case False
  then have ne: "num (price b) \<noteq> num (price a)" using priced_num [OF assms(1)] priced_num [OF assms(2)]
    by auto
  have "js_lt (num (price b)) (num (price a))
      = (rank_desc (num (price a)) < rank_desc (num (price b)))"
    using priced_num assms by (simp add: js_lt_rank_desc)
  then show ?thesis using False ne priced_num [OF assms(1)] priced_num [OF assms(2)]
    by (auto simp: bidCmp_def bidKey_def js_ne_def negative_sub)
qed

lemma askCmp_key:
  assumes "priced a" and "priced b"
  shows "negative (askCmp a b) = (askKey a < askKey b)"
proof (cases "price a = price b")
  case True
  have "js_lt (timestamp a) (timestamp b) = (rank (timestamp a) < rank (timestamp b))"
    using assms by (simp add: js_lt_rank priced_def)
  then show ?thesis using True assms
    by (simp add: askCmp_def askKey_def js_ne_def negative_sub priced_def)
next
  case False
  then have ne: "num (price a) \<noteq> num (price b)" using priced_num [OF assms(1)] priced_num [OF assms(2)]
    by auto
  have "js_lt (num (price a)) (num (price b))
      = (rank (num (price a)) < rank (num (price b)))"
    using priced_num assms by (simp add: js_lt_rank)
  then show ?thesis using False ne priced_num [OF assms(1)] priced_num [OF assms(2)]
    by (auto simp: askCmp_def askKey_def js_ne_def negative_sub)
qed

lemma cmp_key_bid: "\<forall>x\<in>S. priced x \<Longrightarrow> cmp_key bidCmp bidKey S"
  unfolding cmp_key_def using bidCmp_key by blast

lemma cmp_key_ask: "\<forall>x\<in>S. priced x \<Longrightarrow> cmp_key askCmp askKey S"
  unfolding cmp_key_def using askCmp_key by blast

definition opposingKey :: "order \<Rightarrow> order \<Rightarrow> (nat \<times> rat) \<times> (nat \<times> rat)" where
  "opposingKey order = (if side order = BUY then askKey else bidKey)"

definition sameHeap :: "order \<Rightarrow> book \<Rightarrow> order list" where
  "sameHeap order b = (if side order = BUY then bids b else asks b)"

lemma cmp_key_opposing:
  "\<forall>x\<in>S. priced x \<Longrightarrow> cmp_key (opposingCmp order) (opposingKey order) S"
  by (simp add: opposingCmp_def opposingKey_def cmp_key_bid cmp_key_ask)

lemma opposingKey_quantity [simp]: "opposingKey order (x\<lparr>quantity := q\<rparr>) = opposingKey order x"
  by (simp add: opposingKey_def askKey_def bidKey_def)

lemma priced_quantity [simp]: "priced (x\<lparr>quantity := q\<rparr>) = priced x"
  by (simp add: priced_def)

lemma priced_status [simp]: "priced (x\<lparr>status := s\<rparr>) = priced x"
  by (simp add: priced_def)

lemma key_heap_update_hd:
  fixes key :: "order \<Rightarrow> 'k::linorder"
  assumes "key_heap key (x # xs)" and "key y = key x"
  shows "key_heap key (y # xs)"
  unfolding key_heap_def
proof (intro allI impI)
  fix i assume i: "0 < i \<and> i < length (y # xs)"
  then have "key ((x # xs) ! ((i - 1) div 2)) \<le> key ((x # xs) ! i)"
    using assms(1) by (simp add: key_heap_def)
  moreover have "(y # xs) ! i = (x # xs) ! i" using i by (cases i) auto
  moreover have "key ((y # xs) ! ((i - 1) div 2)) = key ((x # xs) ! ((i - 1) div 2))"
    using assms(2) by (cases "(i - 1) div 2") auto
  ultimately show "key ((y # xs) ! ((i - 1) div 2)) \<le> key ((y # xs) ! i)" by simp
qed

subsection \<open>One iteration of the matching loop\<close>

lemma sameHeap_fill_best [simp]:
  "sameHeap order (fill_best b order remainder best) = sameHeap order b"
  by (simp add: fill_best_def Let_def sameHeap_def set_opposingHeap_def emit_def)

lemma frame_fill_best [simp]:
  "pair (fill_best b order remainder best) = pair b"
  "pricePrecision (fill_best b order remainder best) = pricePrecision b"
  "trades (fill_best b order remainder best) = trades b"
  "onTrade (fill_best b order remainder best) = onTrade b"
  "onOrderAdded (fill_best b order remainder best) = onOrderAdded b"
  "onOrderRemoved (fill_best b order remainder best) = onOrderRemoved b"
  by (simp_all add: fill_best_def Let_def set_opposingHeap_def emit_def)

lemma set_opposing_fill_best:
  assumes "opposingHeap order b = best # rest"
  shows "set (opposingHeap order (fill_best b order remainder best)) =
     (if best_left b remainder best = Num 0 then set rest
      else insert (best\<lparr>quantity := best_left b remainder best\<rparr>) (set rest))"
  using assms by (simp add: opposingHeap_fill_best set_extractTop)

lemma key_heap_fill_best:
  assumes h: "opposingHeap order b = best # rest"
    and pr: "\<forall>x\<in>set (best # rest). priced x"
    and kh: "key_heap (opposingKey order) (best # rest)"
  shows "key_heap (opposingKey order) (opposingHeap order (fill_best b order remainder best))"
proof -
  have ck: "cmp_key (opposingCmp order) (opposingKey order) (set rest)"
    using pr by (simp add: cmp_key_opposing)
  have k0: "key_heap (opposingKey order) (best\<lparr>quantity := q\<rparr> # rest)" for q
    using key_heap_update_hd [OF kh] by simp
  show ?thesis
    using h k0 extractTop_key_heap [OF ck k0] by (simp add: opposingHeap_fill_best)
qed

text \<open>With aligned finite quantities a fill takes the smaller quantity exactly.\<close>

lemma aligned_fill:
  assumes "quantity remainder = Num r" and "quantity best = Num q"
    and "aligned r (quantityPrecision b)" and "aligned q (quantityPrecision b)"
  shows "tradedQty b remainder best = Num (min r q)"
    and "quantity (fill_remainder b remainder best) = Num (r - min r q)"
    and "best_left b remainder best = Num (q - min r q)"
proof -
  have m: "aligned (min r q) (quantityPrecision b)"
    using assms by (simp add: aligned_min)
  show t: "tradedQty b remainder best = Num (min r q)"
    using assms(1,2) round_rat_aligned [OF m] by (simp add: tradedQty_def)
  show "quantity (fill_remainder b remainder best) = Num (r - min r q)"
    using round_rat_aligned [OF aligned_diff [OF assms(3) m]] assms(1)
    by (simp add: fill_remainder_def t)
  show "best_left b remainder best = Num (q - min r q)"
    using round_rat_aligned [OF aligned_diff [OF assms(4) m]] assms(2)
    by (simp add: best_left_def t)
qed

subsection \<open>Invariants of the matching loop\<close>

lemma match_loop_invariant:
  "(\<And>remainder b best rest. I remainder b \<Longrightarrow> js_lt (Num 0) (quantity remainder) \<Longrightarrow>
      opposingHeap order b = best # rest \<Longrightarrow> priceMatches order remainder best \<Longrightarrow>
      I (fill_remainder b remainder best) (fill_best b order remainder best)) \<Longrightarrow>
   I remainder b \<Longrightarrow> match_loop clk k order remainder trs b = (trs', remainder', b') \<Longrightarrow>
   I remainder' b'"
proof (induction clk k order remainder trs b rule: match_loop.induct)
  case (1 clk k order remainder trs b)
  note step = "1.prems"(1)
  show ?case
  proof (cases "js_lt (Num 0) (quantity remainder) \<and> opposingHeap order b \<noteq> [] \<and>
      priceMatches order remainder (hd (opposingHeap order b))")
    case True
    let ?best = "hd (opposingHeap order b)"
    have h: "opposingHeap order b = ?best # tl (opposingHeap order b)" using True by simp
    have I': "I (fill_remainder b remainder ?best) (fill_best b order remainder ?best)"
      using step [OF "1.prems"(2) _ h] True by simp
    have "match_loop clk (k + 2) order (fill_remainder b remainder ?best)
        (trs @ [make_trade clk k b order remainder ?best]) (fill_best b order remainder ?best)
        = (trs', remainder', b')"
      using "1.prems"(3) True by (subst (asm) match_loop.simps) (simp add: Let_def)
    then show ?thesis using "1.IH" [OF _ refl _ step I'] True by simp
  next
    case False
    then have "match_loop clk k order remainder trs b = (trs, remainder, b)"
      by (subst match_loop.simps) (auto simp: Let_def)
    then show ?thesis using "1.prems" by simp
  qed
qed

lemma match_loop_exit:
  "match_loop clk k order remainder trs b = (trs', remainder', b') \<Longrightarrow>
   \<not> js_lt (Num 0) (quantity remainder') \<or> opposingHeap order b' = [] \<or>
   \<not> priceMatches order remainder' (hd (opposingHeap order b'))"
proof (induction clk k order remainder trs b rule: match_loop.induct)
  case (1 clk k order remainder trs b)
  show ?case
  proof (cases "js_lt (Num 0) (quantity remainder) \<and> opposingHeap order b \<noteq> [] \<and>
      priceMatches order remainder (hd (opposingHeap order b))")
    case True
    let ?best = "hd (opposingHeap order b)"
    have "match_loop clk (k + 2) order (fill_remainder b remainder ?best)
        (trs @ [make_trade clk k b order remainder ?best]) (fill_best b order remainder ?best)
        = (trs', remainder', b')"
      using "1.prems" True by (subst (asm) match_loop.simps) (simp add: Let_def)
    then show ?thesis using "1.IH" [OF _ refl] True by simp
  next
    case False
    then have "match_loop clk k order remainder trs b = (trs, remainder, b)"
      by (subst match_loop.simps) (auto simp: Let_def)
    then show ?thesis using "1.prems" False by auto
  qed
qed

subsection \<open>What the loop never changes\<close>

definition loop_frame :: "order \<Rightarrow> book \<Rightarrow> order \<Rightarrow> order \<Rightarrow> book \<Rightarrow> bool" where
  "loop_frame order b0 r0 remainder b =
     (pair b = pair b0 \<and> pricePrecision b = pricePrecision b0 \<and>
      quantityPrecision b = quantityPrecision b0 \<and> trades b = trades b0 \<and>
      sameHeap order b = sameHeap order b0 \<and>
      remainder = r0\<lparr>quantity := quantity remainder\<rparr> \<and>
      (\<forall>x\<in>set (opposingHeap order b). \<exists>y\<in>set (opposingHeap order b0).
          x = y\<lparr>quantity := quantity x\<rparr>))"

lemma loop_frame_init: "loop_frame order b order order b"
proof -
  have "\<forall>x\<in>set (opposingHeap order b). \<exists>y\<in>set (opposingHeap order b).
      x = y\<lparr>quantity := quantity x\<rparr>"
  proof
    fix x assume "x \<in> set (opposingHeap order b)"
    moreover have "x = x\<lparr>quantity := quantity x\<rparr>" by simp
    ultimately show "\<exists>y\<in>set (opposingHeap order b). x = y\<lparr>quantity := quantity x\<rparr>" ..
  qed
  then show ?thesis by (simp add: loop_frame_def)
qed

lemma loop_frame_step:
  assumes inv: "loop_frame order b0 r0 remainder b"
    and h: "opposingHeap order b = best # rest"
  shows "loop_frame order b0 r0 (fill_remainder b remainder best) (fill_best b order remainder best)"
proof -
  have all: "\<forall>x\<in>set (best # rest). \<exists>y\<in>set (opposingHeap order b0). x = y\<lparr>quantity := quantity x\<rparr>"
    using inv h by (simp add: loop_frame_def)
  then obtain y where y: "y \<in> set (opposingHeap order b0)" "best = y\<lparr>quantity := quantity best\<rparr>"
    by auto
  have "best\<lparr>quantity := q\<rparr> = y\<lparr>quantity := q\<rparr>" for q
    using arg_cong [OF y(2), of "\<lambda>z. z\<lparr>quantity := q\<rparr>"] by simp
  then have upd: "\<exists>y\<in>set (opposingHeap order b0).
      best\<lparr>quantity := q\<rparr> = y\<lparr>quantity := quantity (best\<lparr>quantity := q\<rparr>)\<rparr>" for q
    using y(1) by auto
  have set': "\<forall>x\<in>set (opposingHeap order (fill_best b order remainder best)).
      \<exists>y\<in>set (opposingHeap order b0). x = y\<lparr>quantity := quantity x\<rparr>"
    using all upd set_opposing_fill_best [OF h, of remainder] by (simp split: if_splits)
  have remf: "fill_remainder b remainder best
      = r0\<lparr>quantity := quantity (fill_remainder b remainder best)\<rparr>"
  proof -
    have "remainder = r0\<lparr>quantity := quantity remainder\<rparr>" using inv by (simp add: loop_frame_def)
    then have "fill_remainder b remainder best
        = r0\<lparr>quantity := quantity remainder\<rparr>\<lparr>quantity :=
            round_dec (js_sub (quantity remainder) (tradedQty b remainder best))
              (quantityPrecision b)\<rparr>"
      by (simp add: fill_remainder_def)
    then show ?thesis by (simp add: fill_remainder_def)
  qed
  show ?thesis
    unfolding loop_frame_def using inv set' remf by (simp add: loop_frame_def)
qed

lemma match_loop_frame:
  assumes "match_loop clk k order remainder trs b = (trs', remainder', b')"
    and "loop_frame order b0 r0 remainder b"
  shows "loop_frame order b0 r0 remainder' b'"
  using match_loop_invariant [where I = "loop_frame order b0 r0", OF _ assms(2,1)] loop_frame_step
  by blast

lemma match_frame:
  assumes "match clk k order b = (trs, remainder, b1)"
  shows "loop_frame order b order remainder b1"
  using match_loop_frame [OF _ loop_frame_init] assms by (simp add: match_def)

subsection \<open>The heap order through the loop\<close>

definition loop_wf :: "order \<Rightarrow> order \<Rightarrow> book \<Rightarrow> bool" where
  "loop_wf order remainder b =
     (key_heap (opposingKey order) (opposingHeap order b) \<and>
      (\<forall>x\<in>set (opposingHeap order b). priced x))"

lemma loop_wf_step:
  assumes inv: "loop_wf order remainder b" and h: "opposingHeap order b = best # rest"
  shows "loop_wf order (fill_remainder b remainder best) (fill_best b order remainder best)"
proof -
  have pr: "\<forall>x\<in>set (best # rest). priced x" using inv h by (simp add: loop_wf_def)
  have kh: "key_heap (opposingKey order) (best # rest)" using inv h by (simp add: loop_wf_def)
  have "key_heap (opposingKey order) (opposingHeap order (fill_best b order remainder best))"
    by (rule key_heap_fill_best [OF h pr kh])
  moreover have "\<forall>x\<in>set (opposingHeap order (fill_best b order remainder best)). priced x"
    using pr set_opposing_fill_best [OF h, of remainder] by (simp split: if_splits)
  ultimately show ?thesis by (simp add: loop_wf_def)
qed

lemma match_loop_wf:
  assumes "match_loop clk k order remainder trs b = (trs', remainder', b')"
    and "loop_wf order remainder b"
  shows "loop_wf order remainder' b'"
  using match_loop_invariant [where I = "loop_wf order", OF _ assms(2,1)] loop_wf_step
  by blast

subsection \<open>Quantities and statuses through the loop\<close>

definition qty_ok :: "nat \<Rightarrow> order \<Rightarrow> bool" where
  "qty_ok d x =
     ((status x = OPEN \<or> status x = PARTIALLY_FILLED) \<and>
      (\<exists>q. quantity x = Num q \<and> 0 < q \<and> aligned q d))"

definition loop_qty :: "nat \<Rightarrow> order \<Rightarrow> order \<Rightarrow> book \<Rightarrow> bool" where
  "loop_qty d order remainder b =
     (quantityPrecision b = d \<and> (\<forall>x\<in>set (opposingHeap order b). qty_ok d x) \<and>
      (\<exists>r. quantity remainder = Num r \<and> aligned r d \<and> 0 \<le> r))"

lemma loop_qty_step:
  assumes inv: "loop_qty d order remainder b" and q: "js_lt (Num 0) (quantity remainder)"
    and h: "opposingHeap order b = best # rest"
  shows "loop_qty d order (fill_remainder b remainder best) (fill_best b order remainder best)"
proof -
  have d: "quantityPrecision b = d" using inv by (simp add: loop_qty_def)
  have all: "\<forall>x\<in>set (best # rest). qty_ok d x" using inv h by (simp add: loop_qty_def)
  then have bo: "qty_ok d best" by simp
  obtain r where r: "quantity remainder = Num r" "aligned r (quantityPrecision b)"
    using inv d by (auto simp: loop_qty_def)
  obtain qb where qb: "quantity best = Num qb" "aligned qb (quantityPrecision b)" "0 < qb"
    using bo d by (auto simp: qty_ok_def)
  have rp: "0 < r" using q r(1) by simp
  note f = aligned_fill [OF r(1) qb(1) r(2) qb(2)]
  have left_pos: "best_left b remainder best \<noteq> Num 0 \<Longrightarrow> 0 < qb - min r qb"
    using f(3) qb(3) rp by (simp add: min_def split: if_splits)
  have left_al: "aligned (qb - min r qb) d"
    using aligned_diff [OF qb(2) aligned_min [OF r(2) qb(2)]] d by simp
  have set': "\<forall>x\<in>set (opposingHeap order (fill_best b order remainder best)). qty_ok d x"
  proof (cases "best_left b remainder best = Num 0")
    case True
    then show ?thesis using all set_opposing_fill_best [OF h, of remainder] by simp
  next
    case False
    have "qty_ok d (best\<lparr>quantity := best_left b remainder best\<rparr>)"
      using bo left_pos [OF False] left_al f(3) by (simp add: qty_ok_def)
    then show ?thesis using False all set_opposing_fill_best [OF h, of remainder] by simp
  qed
  have "aligned (r - min r qb) d"
    using aligned_diff [OF r(2) aligned_min [OF r(2) qb(2)]] d by simp
  moreover have "0 \<le> r - min r qb" by (simp add: min_def)
  ultimately have rem: "\<exists>r'. quantity (fill_remainder b remainder best) = Num r' \<and>
      aligned r' d \<and> 0 \<le> r'"
    using f(2) by blast
  show ?thesis
    unfolding loop_qty_def using d set' rem by simp
qed

lemma match_loop_qty:
  assumes "match_loop clk k order remainder trs b = (trs', remainder', b')"
    and "loop_qty d order remainder b"
  shows "loop_qty d order remainder' b'"
  using match_loop_invariant [where I = "loop_qty d order", OF _ assms(2,1)] loop_qty_step
  by blast

subsection \<open>The result of addOrder\<close>

lemma emit_frame [simp]:
  "bids (emit e d b) = bids b" "asks (emit e d b) = asks b" "pair (emit e d b) = pair b"
  "pricePrecision (emit e d b) = pricePrecision b" "trades (emit e d b) = trades b"
  "onTrade (emit e d b) = onTrade b" "onOrderAdded (emit e d b) = onOrderAdded b"
  "onOrderRemoved (emit e d b) = onOrderRemoved b"
  by (simp_all add: emit_def)

lemma fold_emit_frame [simp]:
  "bids (fold (\<lambda>t. emit e (f t)) ts b) = bids b"
  "asks (fold (\<lambda>t. emit e (f t)) ts b) = asks b"
  "pair (fold (\<lambda>t. emit e (f t)) ts b) = pair b"
  "pricePrecision (fold (\<lambda>t. emit e (f t)) ts b) = pricePrecision b"
  "quantityPrecision (fold (\<lambda>t. emit e (f t)) ts b) = quantityPrecision b"
  "trades (fold (\<lambda>t. emit e (f t)) ts b) = trades b"
  by (induction ts arbitrary: b) simp_all

definition rest_status :: "trade list \<Rightarrow> OrderStatus" where
  "rest_status trs = (if length trs > 0 then PARTIALLY_FILLED else OPEN)"

lemma addOrder_book:
  assumes v: "validateOrder order = None"
    and m: "match clk (clock_reads order) (normalise clk order b) b = (trs, rem, b1)"
  shows "bids (snd (addOrder clk order b)) =
           (if js_lt (Num 0) (quantity rem) \<and> otype rem = LIMIT \<and> side rem = BUY
            then insert_heap bidCmp (rem\<lparr>status := rest_status trs\<rparr>) (bids b1) else bids b1)"
    and "asks (snd (addOrder clk order b)) =
           (if js_lt (Num 0) (quantity rem) \<and> otype rem = LIMIT \<and> side rem \<noteq> BUY
            then insert_heap askCmp (rem\<lparr>status := rest_status trs\<rparr>) (asks b1) else asks b1)"
    and "pair (snd (addOrder clk order b)) = pair b1"
    and "pricePrecision (snd (addOrder clk order b)) = pricePrecision b1"
    and "quantityPrecision (snd (addOrder clk order b)) = quantityPrecision b1"
    and "trades (snd (addOrder clk order b)) = trades b1 @ trs"
    and "fst (addOrder clk order b) =
           Inr \<lparr>res_trades = trs,
                res_remainder = (if js_lt (Num 0) (quantity rem) then Some (rem\<lparr>status := rest_status trs\<rparr>) else None),
                res_status = (if js_lt (Num 0) (quantity rem) then rest_status trs else FILLED)\<rparr>"
  using v m by (simp_all add: addOrder_def Let_def insertOrder_def rest_status_def)

lemma round_rat_nonneg: "0 \<le> x \<Longrightarrow> 0 \<le> round_rat x d"
proof -
  assume x: "0 \<le> x"
  then have "0 \<le> x * 10 ^ d + 1 / 2" by simp
  then have "0 \<le> \<lfloor>x * 10 ^ d + 1 / 2\<rfloor>" by simp
  then show ?thesis using x by (simp add: round_rat_def)
qed

text \<open>
  The two conditions on the orders handed to \<open>addOrder\<close> that the invariants need.
  \<open>#validateOrder\<close> lets a limit order with the price \<open>NaN\<close> pass (\<open>NaN <= 0\<close> is
  false) and an order with the quantity \<open>Infinity\<close>; it rejects the quantities \<open>NaN\<close>
  and \<open>-Infinity\<close>.
\<close>

definition price_not_NaN :: "raw_order \<Rightarrow> bool" where
  "price_not_NaN order = (r_type order = Some MARKET \<or> r_price order \<noteq> Some NaN)"

definition quantity_not_Infinity :: "raw_order \<Rightarrow> bool" where
  "quantity_not_Infinity order = (r_quantity order \<noteq> Some Infinity)"

lemma normalise_valid:
  assumes "validateOrder order = None"
  shows "side (normalise clk order b) = BUY \<or> side (normalise clk order b) = SELL"
    and "otype (normalise clk order b) = LIMIT \<or> otype (normalise clk order b) = MARKET"
    and "(otype (normalise clk order b) = LIMIT) = (price (normalise clk order b) \<noteq> None)"
    and "(otype (normalise clk order b) = MARKET) = (r_type order = Some MARKET)"
    and "status (normalise clk order b) = OPEN"
    and "timestamp (normalise clk order b) \<noteq> NaN"
proof -
  have s: "r_side order = Some BUY \<or> r_side order = Some SELL"
    using assms by (auto simp: validateOrder_def split: if_splits)
  then show "side (normalise clk order b) = BUY \<or> side (normalise clk order b) = SELL"
    by (auto simp: normalise_def)
  have t: "\<not> truthy_str (r_type order) \<or> r_type order = Some LIMIT \<or> r_type order = Some MARKET"
    using assms by (auto simp: validateOrder_def split: if_splits)
  then show "otype (normalise clk order b) = LIMIT \<or> otype (normalise clk order b) = MARKET"
    by (auto simp: normalise_def)
  show "(otype (normalise clk order b) = LIMIT) = (price (normalise clk order b) \<noteq> None)"
    using t by (auto simp: normalise_def truthy_str_def)
  show "(otype (normalise clk order b) = MARKET) = (r_type order = Some MARKET)"
    using t by (auto simp: normalise_def truthy_str_def)
  show "status (normalise clk order b) = OPEN" by (simp add: normalise_def)
  show "timestamp (normalise clk order b) \<noteq> NaN"
    by (cases "r_timestamp order") (auto simp: normalise_def truthy_num_def)
qed

lemma normalise_quantity:
  assumes "validateOrder order = None" and "quantity_not_Infinity order"
  shows "\<exists>q. quantity (normalise clk order b) = Num q \<and> aligned q (quantityPrecision b) \<and> 0 \<le> q"
proof -
  have v: "truthy_num (r_quantity order)"
    "\<not> (case r_quantity order of None \<Rightarrow> False | Some q \<Rightarrow> js_le q (Num 0))"
    using assms(1) by (auto simp: validateOrder_def split: if_splits)
  obtain n where n: "r_quantity order = Some n" using v(1) by (cases "r_quantity order") (auto simp: truthy_num_def)
  have "\<exists>q. n = Num q \<and> 0 < q"
    using v n assms(2)
    by (cases n) (auto simp: truthy_num_def quantity_not_Infinity_def js_le_def js_eq_def)
  then obtain q where q: "n = Num q" "0 < q" by blast
  have "quantity (normalise clk order b) = Num (round_rat q (quantityPrecision b))"
    using n q by (simp add: normalise_def)
  moreover have "0 \<le> round_rat q (quantityPrecision b)" using q(2) by (simp add: round_rat_nonneg)
  ultimately show ?thesis by simp
qed

lemma normalise_priced:
  assumes "validateOrder order = None" and "price_not_NaN order"
    and "r_type order \<noteq> Some MARKET"
  shows "priced (normalise clk order b)"
proof -
  have "\<not> (case r_price order of None \<Rightarrow> True | Some p \<Rightarrow> js_le p (Num 0))"
    using assms(1,3) by (auto simp: validateOrder_def split: if_splits)
  then obtain p where p: "r_price order = Some p" by (cases "r_price order") auto
  have "p \<noteq> NaN" using assms(2,3) p by (simp add: price_not_NaN_def)
  then have "round_dec p (pricePrecision b) \<noteq> NaN" by (cases p) simp_all
  then show ?thesis
    using p assms(3) normalise_valid(6) [OF assms(1), of clk b]
    by (simp add: priced_def) (simp add: normalise_def)
qed

subsection \<open>Invariants kept by addOrder\<close>

text \<open>
  \<open>wf_inv\<close>: both arrays are in heap order and every resting order is priced.
  \<open>cross_inv\<close>: every bid is priced below every ask. \<open>qty_inv\<close>: every resting order
  is open or partially filled and its quantity is positive and aligned to the book's
  quantity precision. \<open>limit_inv\<close>: every resting order is a limit order.
\<close>

definition wf_inv :: "book \<Rightarrow> bool" where
  "wf_inv b =
     (key_heap bidKey (bids b) \<and> key_heap askKey (asks b) \<and>
      (\<forall>x\<in>set (bids b) \<union> set (asks b). priced x))"

definition cross_inv :: "book \<Rightarrow> bool" where
  "cross_inv b =
     (\<forall>x\<in>set (bids b). \<forall>y\<in>set (asks b). js_lt (num (price x)) (num (price y)))"

definition qty_inv :: "book \<Rightarrow> bool" where
  "qty_inv b = (\<forall>x\<in>set (bids b) \<union> set (asks b). qty_ok (quantityPrecision b) x)"

definition limit_inv :: "book \<Rightarrow> bool" where
  "limit_inv b = (\<forall>x\<in>set (bids b) \<union> set (asks b). otype x = LIMIT)"




lemma addOrder_invalid: "validateOrder order = Some e \<Longrightarrow> addOrder clk order b = (Inl e, b)"
  by (simp add: addOrder_def)

text \<open>The facts about a call of \<open>addOrder\<close> that passes validation.\<close>

lemma addOrder_heaps:
  assumes v: "validateOrder order = None"
    and m: "match clk (clock_reads order) (normalise clk order b) b = (trs, rem, b1)"
  shows "side rem = side (normalise clk order b)"
    and "otype rem = otype (normalise clk order b)"
    and "price rem = price (normalise clk order b)"
    and "sameHeap (normalise clk order b) b1 = sameHeap (normalise clk order b) b"
    and "quantityPrecision b1 = quantityPrecision b"
    and "\<forall>x\<in>set (opposingHeap (normalise clk order b) b1).
           \<exists>y\<in>set (opposingHeap (normalise clk order b) b). x = y\<lparr>quantity := quantity x\<rparr>"
    and "\<not> js_lt (Num 0) (quantity rem) \<or> opposingHeap (normalise clk order b) b1 = [] \<or>
           \<not> priceMatches (normalise clk order b) rem (hd (opposingHeap (normalise clk order b) b1))"
proof -
  let ?n = "normalise clk order b"
  have fr: "loop_frame ?n b ?n rem b1" by (rule match_frame [OF m])
  then have remn: "rem = ?n\<lparr>quantity := quantity rem\<rparr>" by (simp add: loop_frame_def)
  show "side rem = side ?n" using arg_cong [OF remn, of side] by simp
  show "otype rem = otype ?n" using arg_cong [OF remn, of otype] by simp
  show "price rem = price ?n" using arg_cong [OF remn, of price] by simp
  show "sameHeap ?n b1 = sameHeap ?n b" using fr by (simp add: loop_frame_def)
  show "quantityPrecision b1 = quantityPrecision b" using fr by (simp add: loop_frame_def)
  show "\<forall>x\<in>set (opposingHeap ?n b1). \<exists>y\<in>set (opposingHeap ?n b). x = y\<lparr>quantity := quantity x\<rparr>"
    using fr by (simp add: loop_frame_def)
  show "\<not> js_lt (Num 0) (quantity rem) \<or> opposingHeap ?n b1 = [] \<or>
      \<not> priceMatches ?n rem (hd (opposingHeap ?n b1))"
    using match_loop_exit m by (simp add: match_def)
qed

lemma same_field:
  assumes "\<forall>x\<in>set h1. \<exists>y\<in>set h. x = y\<lparr>quantity := quantity x\<rparr>" and "x \<in> set h1"
  obtains y where "y \<in> set h" "price y = price x" "otype y = otype x" "status y = status x"
    "timestamp y = timestamp x" "oid y = oid x" "side y = side x"
proof -
  obtain y where y: "y \<in> set h" "x = y\<lparr>quantity := quantity x\<rparr>" using assms by blast
  have "price x = price y" using arg_cong [OF y(2), of price] by simp
  moreover have "otype x = otype y" using arg_cong [OF y(2), of otype] by simp
  moreover have "status x = status y" using arg_cong [OF y(2), of status] by simp
  moreover have "timestamp x = timestamp y" using arg_cong [OF y(2), of timestamp] by simp
  moreover have "oid x = oid y" using arg_cong [OF y(2), of oid] by simp
  moreover have "side x = side y" using arg_cong [OF y(2), of side] by simp
  ultimately show ?thesis using that y(1) by simp
qed

lemma wf_inv_opposing:
  assumes "wf_inv b"
  shows "loop_wf order order b"
  using assms by (auto simp: wf_inv_def loop_wf_def opposingKey_def opposingHeap_def)

lemma addOrder_wf_inv:
  assumes inv: "wf_inv b" and po: "price_not_NaN order"
  shows "wf_inv (snd (addOrder clk order b))"
proof (cases "validateOrder order")
  case (Some e)
  then show ?thesis using inv by (simp add: addOrder_def)
next
  case None
  define n where "n = normalise clk order b"
  obtain trs rem b1 where m: "match clk (clock_reads order) n b = (trs, rem, b1)"
    by (cases "match clk (clock_reads order) n b") auto
  note nv = normalise_valid [OF None, of clk b, folded n_def]
  note ab = addOrder_book [OF None m [unfolded n_def]]
  note ah = addOrder_heaps [OF None m [unfolded n_def], folded n_def]
  have lw: "loop_wf n rem b1"
    using match_loop_wf [OF _ wf_inv_opposing [OF inv]] m by (simp add: match_def)
  define r where "r = rem\<lparr>status := rest_status trs\<rparr>"
  have rn: "rem = n\<lparr>quantity := quantity rem\<rparr>"
    using match_frame [OF m] by (simp add: loop_frame_def)
  have rp: "otype rem = LIMIT \<Longrightarrow> priced r"
  proof -
    assume "otype rem = LIMIT"
    then have "r_type order \<noteq> Some MARKET" using nv(4) ah(2) by auto
    then have "priced n" unfolding n_def by (rule normalise_priced [OF None po])
    then have "priced (n\<lparr>quantity := quantity rem\<rparr>)" by simp
    then show "priced r" using rn by (simp add: r_def)
  qed
  show ?thesis
  proof (cases "side n = BUY")
    case buy: True
    have bids1: "bids b1 = bids b" using ah(4) buy by (simp add: sameHeap_def)
    have asks1: "key_heap askKey (asks b1)" "\<forall>x\<in>set (asks b1). priced x"
      using lw buy by (simp_all add: loop_wf_def opposingHeap_def opposingKey_def)
    show ?thesis
    proof (cases "js_lt (Num 0) (quantity rem) \<and> otype rem = LIMIT")
      case False
      then have "bids (snd (addOrder clk order b)) = bids b"
        "asks (snd (addOrder clk order b)) = asks b1"
        using ab(1,2) bids1 ah(1) buy by auto
      then show ?thesis using inv asks1 by (auto simp: wf_inv_def)
    next
      case True
      then have hb: "bids (snd (addOrder clk order b)) = insert_heap bidCmp r (bids b)"
        "asks (snd (addOrder clk order b)) = asks b1"
        using ab(1,2) bids1 ah(1) buy by (auto simp: r_def)
      have pr: "\<forall>x\<in>insert r (set (bids b)). priced x"
        using rp True inv by (auto simp: wf_inv_def)
      then have ckb: "cmp_key bidCmp bidKey (insert r (set (bids b)))" by (rule cmp_key_bid)
      have khb: "key_heap bidKey (bids b)" using inv by (simp add: wf_inv_def)
      have kb: "key_heap bidKey (insert_heap bidCmp r (bids b))"
        by (rule insert_heap_key_heap [OF ckb khb])
      show ?thesis using hb kb asks1 pr by (auto simp: wf_inv_def)
    qed
  next
    case sell: False
    have asks1: "asks b1 = asks b" using ah(4) sell by (simp add: sameHeap_def)
    have bids1: "key_heap bidKey (bids b1)" "\<forall>x\<in>set (bids b1). priced x"
      using lw sell by (simp_all add: loop_wf_def opposingHeap_def opposingKey_def)
    show ?thesis
    proof (cases "js_lt (Num 0) (quantity rem) \<and> otype rem = LIMIT")
      case False
      then have "bids (snd (addOrder clk order b)) = bids b1"
        "asks (snd (addOrder clk order b)) = asks b"
        using ab(1,2) asks1 ah(1) sell by auto
      then show ?thesis using inv bids1 by (auto simp: wf_inv_def)
    next
      case True
      then have hb: "bids (snd (addOrder clk order b)) = bids b1"
        "asks (snd (addOrder clk order b)) = insert_heap askCmp r (asks b)"
        using ab(1,2) asks1 ah(1) sell by (auto simp: r_def)
      have pr: "\<forall>x\<in>insert r (set (asks b)). priced x"
        using rp True inv by (auto simp: wf_inv_def)
      then have cka: "cmp_key askCmp askKey (insert r (set (asks b)))" by (rule cmp_key_ask)
      have kha: "key_heap askKey (asks b)" using inv by (simp add: wf_inv_def)
      have ka: "key_heap askKey (insert_heap askCmp r (asks b))"
        by (rule insert_heap_key_heap [OF cka kha])
      show ?thesis using hb ka bids1 pr by (auto simp: wf_inv_def)
    qed
  qed
qed


lemma addOrder_quantityPrecision [simp]:
  "quantityPrecision (snd (addOrder clk order b)) = quantityPrecision b"
proof (cases "validateOrder order")
  case (Some e)
  then show ?thesis by (simp add: addOrder_def)
next
  case None
  obtain trs rem b1 where m: "match clk (clock_reads order) (normalise clk order b) b = (trs, rem, b1)"
    by (cases "match clk (clock_reads order) (normalise clk order b) b") auto
  show ?thesis using addOrder_book(5) [OF None m] addOrder_heaps(5) [OF None m] by simp
qed

lemma addOrder_qty_inv:
  assumes inv: "qty_inv b" and qo: "quantity_not_Infinity order"
  shows "qty_inv (snd (addOrder clk order b))"
proof (cases "validateOrder order")
  case (Some e)
  then show ?thesis using inv by (simp add: addOrder_def)
next
  case None
  define n where "n = normalise clk order b"
  let ?d = "quantityPrecision b"
  obtain trs rem b1 where m: "match clk (clock_reads order) n b = (trs, rem, b1)"
    by (cases "match clk (clock_reads order) n b") auto
  note nv = normalise_valid [OF None, of clk b, folded n_def]
  note ab = addOrder_book [OF None m [unfolded n_def]]
  note ah = addOrder_heaps [OF None m [unfolded n_def], folded n_def]
  have "loop_qty ?d n n b"
    using inv normalise_quantity [OF None qo, of clk b, folded n_def]
    by (auto simp: loop_qty_def qty_inv_def opposingHeap_def)
  then have lq: "loop_qty ?d n rem b1"
    using match_loop_qty m by (simp add: match_def)
  define r where "r = rem\<lparr>status := rest_status trs\<rparr>"
  have rok: "js_lt (Num 0) (quantity rem) \<Longrightarrow> qty_ok ?d r"
    using lq by (auto simp: loop_qty_def qty_ok_def r_def rest_status_def)
  have opp: "\<forall>x\<in>set (opposingHeap n b1). qty_ok ?d x" using lq by (simp add: loop_qty_def)
  have same: "\<forall>x\<in>set (sameHeap n b1). qty_ok ?d x"
    using ah(4) inv by (auto simp: qty_inv_def sameHeap_def)
  have all1: "\<forall>x\<in>set (bids b1) \<union> set (asks b1). qty_ok ?d x"
    using opp same by (auto simp: opposingHeap_def sameHeap_def split: if_splits)
  have "set (bids (snd (addOrder clk order b))) \<union> set (asks (snd (addOrder clk order b)))
      \<subseteq> (if js_lt (Num 0) (quantity rem) then {r} else {}) \<union> (set (bids b1) \<union> set (asks b1))"
    using ab(1,2) by (auto simp: r_def)
  then show ?thesis using all1 rok unfolding qty_inv_def
    by (auto split: if_splits)
qed

lemma addOrder_limit_inv:
  assumes inv: "limit_inv b"
  shows "limit_inv (snd (addOrder clk order b))"
proof (cases "validateOrder order")
  case (Some e)
  then show ?thesis using inv by (simp add: addOrder_def)
next
  case None
  define n where "n = normalise clk order b"
  obtain trs rem b1 where m: "match clk (clock_reads order) n b = (trs, rem, b1)"
    by (cases "match clk (clock_reads order) n b") auto
  note ab = addOrder_book [OF None m [unfolded n_def]]
  note ah = addOrder_heaps [OF None m [unfolded n_def], folded n_def]
  define r where "r = rem\<lparr>status := rest_status trs\<rparr>"
  have opp: "\<forall>x\<in>set (opposingHeap n b1). otype x = LIMIT"
  proof
    fix x assume x: "x \<in> set (opposingHeap n b1)"
    obtain y where "y \<in> set (opposingHeap n b)" "otype y = otype x"
      using same_field [OF ah(6) x] by metis
    then show "otype x = LIMIT" using inv by (auto simp: limit_inv_def opposingHeap_def split: if_splits)
  qed
  have same: "\<forall>x\<in>set (sameHeap n b1). otype x = LIMIT"
    using ah(4) inv by (auto simp: limit_inv_def sameHeap_def)
  have all1: "\<forall>x\<in>set (bids b1) \<union> set (asks b1). otype x = LIMIT"
    using opp same by (auto simp: opposingHeap_def sameHeap_def split: if_splits)
  have "set (bids (snd (addOrder clk order b))) \<union> set (asks (snd (addOrder clk order b)))
      \<subseteq> (if otype rem = LIMIT then {r} else {}) \<union> (set (bids b1) \<union> set (asks b1))"
    using ab(1,2) by (auto simp: r_def)
  moreover have "otype r = otype rem" by (simp add: r_def)
  ultimately show ?thesis using all1 unfolding limit_inv_def
    by (auto split: if_splits)
qed

subsection \<open>cancelOrder\<close>

lemma cancelOrder_heaps:
  "bids (snd (cancelOrder i b)) = snd (removeById bidCmp i (bids b)) \<or>
   bids (snd (cancelOrder i b)) = bids b"
  "asks (snd (cancelOrder i b)) = snd (removeById askCmp i (asks b)) \<or>
   asks (snd (cancelOrder i b)) = asks b"
  "quantityPrecision (snd (cancelOrder i b)) = quantityPrecision b"
  "pair (snd (cancelOrder i b)) = pair b"
  by (auto simp: cancelOrder_def Let_def split: prod.splits option.splits)

lemma cancelOrder_subset:
  "set (bids (snd (cancelOrder i b))) \<subseteq> set (bids b)"
  "set (asks (snd (cancelOrder i b))) \<subseteq> set (asks b)"
  using cancelOrder_heaps(1,2) [of i b] set_removeById [of bidCmp i "bids b"]
    set_removeById [of askCmp i "asks b"] by auto

lemma cancelOrder_wf_inv:
  assumes "wf_inv b"
  shows "wf_inv (snd (cancelOrder i b))"
proof -
  have pb: "\<forall>x\<in>set (bids b). priced x" and pa: "\<forall>x\<in>set (asks b). priced x"
    using assms by (auto simp: wf_inv_def)
  have kb: "key_heap bidKey (bids b)" and ka: "key_heap askKey (asks b)"
    using assms by (auto simp: wf_inv_def)
  have "key_heap bidKey (snd (removeById bidCmp i (bids b)))"
    by (rule removeById_key_heap [OF cmp_key_bid [OF pb] kb])
  then have 1: "key_heap bidKey (bids (snd (cancelOrder i b)))"
    using cancelOrder_heaps(1) [of i b] kb by auto
  have "key_heap askKey (snd (removeById askCmp i (asks b)))"
    by (rule removeById_key_heap [OF cmp_key_ask [OF pa] ka])
  then have 2: "key_heap askKey (asks (snd (cancelOrder i b)))"
    using cancelOrder_heaps(2) [of i b] ka by auto
  show ?thesis using 1 2 pb pa cancelOrder_subset [of i b] by (auto simp: wf_inv_def)
qed


lemma cancelOrder_qty_inv: "qty_inv b \<Longrightarrow> qty_inv (snd (cancelOrder i b))"
  using cancelOrder_subset [of i b] cancelOrder_heaps(3) [of i b] unfolding qty_inv_def by auto

lemma cancelOrder_limit_inv: "limit_inv b \<Longrightarrow> limit_inv (snd (cancelOrder i b))"
  using cancelOrder_subset [of i b] unfolding limit_inv_def by blast

subsection \<open>loadSnapshot\<close>

lemma fold_insert_heap:
  fixes key :: "order \<Rightarrow> 'k::linorder"
  shows "cmp_key cmp key (set xs \<union> set acc) \<Longrightarrow> key_heap key acc \<Longrightarrow>
    key_heap key (fold (insert_heap cmp) xs acc) \<and>
    set (fold (insert_heap cmp) xs acc) = set xs \<union> set acc"
proof (induction xs arbitrary: acc)
  case Nil
  then show ?case by simp
next
  case (Cons x xs)
  have ck1: "cmp_key cmp key (insert x (set acc))"
    by (rule cmp_key_subset [OF Cons.prems(1)]) auto
  have kh: "key_heap key (insert_heap cmp x acc)"
    by (rule insert_heap_key_heap [OF ck1 Cons.prems(2)])
  have ck2: "cmp_key cmp key (set xs \<union> set (insert_heap cmp x acc))"
    by (rule cmp_key_subset [OF Cons.prems(1)]) auto
  show ?case using Cons.IH [OF ck2 kh] by auto
qed

lemma set_fold_insert_heap [simp]:
  "set (fold (insert_heap cmp) xs acc) = set xs \<union> set acc"
  by (induction xs arbitrary: acc) auto

lemma loadSnapshot_heaps:
  assumes "loadSnapshot snap b = Inr b'"
  shows "bids b' = fold (insert_heap bidCmp) (s_bids snap) []"
    and "asks b' = fold (insert_heap askCmp) (s_asks snap) []"
    and "quantityPrecision b' = quantityPrecision b" and "pair b' = pair b"
    and "trades b' = trades b" and "hook_log b' = hook_log b"
  using assms by (auto simp: loadSnapshot_def split: if_splits)


section \<open>Books built by the public operations\<close>

text \<open>
  \<open>reach accept admit b\<close>: the book \<open>b\<close> is obtained from a new book by calls of
  \<open>addOrder\<close>, \<open>applyRemoteOrder\<close>, \<open>cancelOrder\<close> and \<open>loadSnapshot\<close>, where every
  order handed to \<open>addOrder\<close> or \<open>applyRemoteOrder\<close> satisfies \<open>accept\<close> and every
  snapshot loaded into a book satisfies \<open>admit\<close> (and, as \<open>loadSnapshot\<close> assumes, is
  the book's alone from then on).
\<close>

inductive reach :: "(raw_order \<Rightarrow> bool) \<Rightarrow> (book \<Rightarrow> snapshot \<Rightarrow> bool) \<Rightarrow> book \<Rightarrow> bool"
  for accept :: "raw_order \<Rightarrow> bool" and admit :: "book \<Rightarrow> snapshot \<Rightarrow> bool" where
  new: "new_OrderBook p pp qp hTrade hAdded hRemoved = Some b \<Longrightarrow> reach accept admit b"
| add: "reach accept admit b \<Longrightarrow> accept order \<Longrightarrow>
        reach accept admit (snd (addOrder clk order b))"
| remote: "reach accept admit b \<Longrightarrow> accept order \<Longrightarrow>
        reach accept admit (snd (applyRemoteOrder clk order b))"
| cancel: "reach accept admit b \<Longrightarrow> reach accept admit (snd (cancelOrder orderId b))"
| load: "reach accept admit b \<Longrightarrow> admit b snap \<Longrightarrow> loadSnapshot snap b = Inr b' \<Longrightarrow>
        reach accept admit b'"

text \<open>The conditions on orders and on snapshots that the claims below use.\<close>

definition any_order :: "raw_order \<Rightarrow> bool" where
  "any_order order = True"

definition snapshot_priced :: "snapshot \<Rightarrow> bool" where
  "snapshot_priced snap = (\<forall>x\<in>set (s_bids snap) \<union> set (s_asks snap). priced x)"

definition snapshot_uncrossed :: "snapshot \<Rightarrow> bool" where
  "snapshot_uncrossed snap =
     (snapshot_priced snap \<and>
      (\<forall>x\<in>set (s_bids snap). \<forall>y\<in>set (s_asks snap). js_lt (num (price x)) (num (price y))))"

definition snapshot_resting :: "nat \<Rightarrow> snapshot \<Rightarrow> bool" where
  "snapshot_resting d snap = (\<forall>x\<in>set (s_bids snap) \<union> set (s_asks snap). qty_ok d x)"

definition snapshot_limit :: "snapshot \<Rightarrow> bool" where
  "snapshot_limit snap = (\<forall>x\<in>set (s_bids snap) \<union> set (s_asks snap). otype x = LIMIT)"

definition admit_priced :: "book \<Rightarrow> snapshot \<Rightarrow> bool" where
  "admit_priced b snap = snapshot_priced snap"


definition admit_resting :: "book \<Rightarrow> snapshot \<Rightarrow> bool" where
  "admit_resting b snap = snapshot_resting (quantityPrecision b) snap"

definition admit_limit :: "book \<Rightarrow> snapshot \<Rightarrow> bool" where
  "admit_limit b snap = snapshot_limit snap"

lemma new_OrderBook_empty:
  "new_OrderBook p pp qp hTrade hAdded hRemoved = Some b \<Longrightarrow>
   bids b = [] \<and> asks b = [] \<and> pair b \<noteq> [] \<and> trades b = [] \<and> hook_log b = []"
  by (auto simp: new_OrderBook_def split: if_splits)

lemma applyRemoteOrder_addOrder: "applyRemoteOrder clk order b = addOrder clk order b"
  by (simp add: applyRemoteOrder_def addOrder_def validateOrder_def normalise_def
      clock_reads_def)

lemma loadSnapshot_wf_inv:
  assumes "snapshot_priced snap" and "loadSnapshot snap b = Inr b'"
  shows "wf_inv b'"
proof -
  note h = loadSnapshot_heaps [OF assms(2)]
  have pb: "\<forall>x\<in>set (s_bids snap) \<union> set []. priced x"
    and pa: "\<forall>x\<in>set (s_asks snap) \<union> set []. priced x"
    using assms(1) by (auto simp: snapshot_priced_def)
  have "key_heap bidKey (fold (insert_heap bidCmp) (s_bids snap) [])"
    using fold_insert_heap [OF cmp_key_bid [OF pb] key_heap_Nil] by blast
  moreover have "key_heap askKey (fold (insert_heap askCmp) (s_asks snap) [])"
    using fold_insert_heap [OF cmp_key_ask [OF pa] key_heap_Nil] by blast
  ultimately show ?thesis using h(1,2) pb pa by (auto simp: wf_inv_def)
qed

lemma reach_wf_inv:
  assumes acc: "\<And>order. accept order \<Longrightarrow> price_not_NaN order"
    and adm: "\<And>b snap. admit b snap \<Longrightarrow> snapshot_priced snap"
  shows "reach accept admit b \<Longrightarrow> wf_inv b"
proof (induction rule: reach.induct)
  case (new p pp qp hTrade hAdded hRemoved b)
  then show ?case using new_OrderBook_empty [OF new] by (simp add: wf_inv_def)
next
  case (add b order clk)
  then show ?case using acc by (simp add: addOrder_wf_inv)
next
  case (remote b order clk)
  then show ?case using acc by (simp add: applyRemoteOrder_addOrder addOrder_wf_inv)
next
  case (cancel b orderId)
  then show ?case by (simp add: cancelOrder_wf_inv)
next
  case (load b snap b')
  then show ?case using loadSnapshot_wf_inv adm by blast
qed


lemma reach_qty_inv:
  assumes acc: "\<And>order. accept order \<Longrightarrow> quantity_not_Infinity order"
    and adm: "\<And>b snap. admit b snap \<Longrightarrow> snapshot_resting (quantityPrecision b) snap"
  shows "reach accept admit b \<Longrightarrow> qty_inv b"
proof (induction rule: reach.induct)
  case (new p pp qp hTrade hAdded hRemoved b)
  then show ?case using new_OrderBook_empty [OF new] by (simp add: qty_inv_def)
next
  case (add b order clk)
  then show ?case using acc by (simp add: addOrder_qty_inv)
next
  case (remote b order clk)
  then show ?case using acc by (simp add: applyRemoteOrder_addOrder addOrder_qty_inv)
next
  case (cancel b orderId)
  then show ?case by (simp add: cancelOrder_qty_inv)
next
  case (load b snap b')
  have "snapshot_resting (quantityPrecision b) snap" using adm load.hyps by blast
  then show ?case using loadSnapshot_heaps(1,2,3) [OF load.hyps(3)]
    by (simp add: qty_inv_def snapshot_resting_def)
qed

lemma reach_limit_inv:
  assumes adm: "\<And>b snap. admit b snap \<Longrightarrow> snapshot_limit snap"
  shows "reach accept admit b \<Longrightarrow> limit_inv b"
proof (induction rule: reach.induct)
  case (new p pp qp hTrade hAdded hRemoved b)
  then show ?case using new_OrderBook_empty [OF new] by (simp add: limit_inv_def)
next
  case (add b order clk)
  then show ?case by (simp add: addOrder_limit_inv)
next
  case (remote b order clk)
  then show ?case by (simp add: applyRemoteOrder_addOrder addOrder_limit_inv)
next
  case (cancel b orderId)
  then show ?case by (simp add: cancelOrder_limit_inv)
next
  case (load b snap b')
  have "snapshot_limit snap" using adm load.hyps by blast
  then show ?case using loadSnapshot_heaps(1,2) [OF load.hyps(3)]
    by (simp add: limit_inv_def snapshot_limit_def)
qed



lemma getSnapshot_uncrossed:
  "wf_inv b \<Longrightarrow> cross_inv b \<Longrightarrow> snapshot_uncrossed (getSnapshot clk b)"
  by (auto simp: getSnapshot_def snapshot_uncrossed_def snapshot_priced_def wf_inv_def cross_inv_def)

subsection \<open>Snapshot round trip\<close>

lemma fold_insert_heap_same:
  assumes "\<forall>i. 0 < i \<and> i < length xs \<longrightarrow> \<not> negative (cmp (xs ! i) (xs ! ((i - 1) div 2)))"
  shows "fold (insert_heap cmp) xs [] = xs"
  using assms
proof (induction xs rule: rev_induct)
  case Nil
  then show ?case by simp
next
  case (snoc x xs)
  have pre: "\<forall>i. 0 < i \<and> i < length xs \<longrightarrow> \<not> negative (cmp (xs ! i) (xs ! ((i - 1) div 2)))"
  proof (intro allI impI)
    fix i assume i: "0 < i \<and> i < length xs"
    then have p: "(i - 1) div 2 < length xs" using parent_less [of i] by simp
    have "\<not> negative (cmp ((xs @ [x]) ! i) ((xs @ [x]) ! ((i - 1) div 2)))"
      using snoc.prems i by simp
    then show "\<not> negative (cmp (xs ! i) (xs ! ((i - 1) div 2)))" using i p by (simp add: nth_append)
  qed
  have f: "fold (insert_heap cmp) xs [] = xs" using snoc.IH pre by simp
  have "bubbleUp cmp (xs @ [x]) (length xs) = xs @ [x]"
  proof (cases "0 < length xs")
    case True
    have "\<not> negative (cmp ((xs @ [x]) ! length xs) ((xs @ [x]) ! ((length xs - 1) div 2)))"
      using snoc.prems [rule_format, of "length xs"] True by simp
    then show ?thesis by (subst bubbleUp.simps) (simp add: Let_def)
  next
    case False
    then show ?thesis by (subst bubbleUp.simps) simp
  qed
  then have "insert_heap cmp x xs = xs @ [x]" by (simp add: insert_heap_def)
  then show ?case using f by simp
qed

lemma key_heap_cmp:
  fixes key :: "order \<Rightarrow> 'k::linorder"
  assumes "cmp_key cmp key (set xs)" and "key_heap key xs"
  shows "\<forall>i. 0 < i \<and> i < length xs \<longrightarrow> \<not> negative (cmp (xs ! i) (xs ! ((i - 1) div 2)))"
proof (intro allI impI)
  fix i assume i: "0 < i \<and> i < length xs"
  then have p: "(i - 1) div 2 < length xs" using parent_less [of i] by simp
  have "key (xs ! ((i - 1) div 2)) \<le> key (xs ! i)" using assms(2) i by (simp add: key_heap_def)
  then have "\<not> key (xs ! i) < key (xs ! ((i - 1) div 2))" by simp
  then show "\<not> negative (cmp (xs ! i) (xs ! ((i - 1) div 2)))"
    using cmp_keyD [OF assms(1) _ p, of i] i by simp
qed

lemma wf_inv_reload:
  assumes "wf_inv b"
  shows "fold (insert_heap bidCmp) (bids b) [] = bids b"
    and "fold (insert_heap askCmp) (asks b) [] = asks b"
proof -
  have pb: "\<forall>x\<in>set (bids b). priced x" and pa: "\<forall>x\<in>set (asks b). priced x"
    using assms by (auto simp: wf_inv_def)
  have kb: "key_heap bidKey (bids b)" and ka: "key_heap askKey (asks b)"
    using assms by (auto simp: wf_inv_def)
  show "fold (insert_heap bidCmp) (bids b) [] = bids b"
    by (rule fold_insert_heap_same [OF key_heap_cmp [OF cmp_key_bid [OF pb] kb]])
  show "fold (insert_heap askCmp) (asks b) [] = asks b"
    by (rule fold_insert_heap_same [OF key_heap_cmp [OF cmp_key_ask [OF pa] ka]])
qed

lemma addOrder_pair [simp]: "pair (snd (addOrder clk order b)) = pair b"
proof (cases "validateOrder order")
  case (Some e)
  then show ?thesis by (simp add: addOrder_def)
next
  case None
  obtain trs rem b1 where m: "match clk (clock_reads order) (normalise clk order b) b = (trs, rem, b1)"
    by (cases "match clk (clock_reads order) (normalise clk order b) b") auto
  have "pair b1 = pair b" using match_frame [OF m] by (simp add: loop_frame_def)
  then show ?thesis using addOrder_book(3) [OF None m] by simp
qed

lemma reach_pair: "reach accept admit b \<Longrightarrow> pair b \<noteq> []"
proof (induction rule: reach.induct)
  case (new p pp qp hTrade hAdded hRemoved b)
  then show ?case using new_OrderBook_empty by blast
next
  case (add b order clk)
  then show ?case by simp
next
  case (remote b order clk)
  then show ?case by (simp add: applyRemoteOrder_addOrder)
next
  case (cancel b orderId)
  then show ?case by (simp add: cancelOrder_heaps(4))
next
  case (load b snap b')
  then show ?case using loadSnapshot_heaps(4) by simp
qed

subsection \<open>The orders the matching loop selects\<close>

text \<open>
  \<open>match_visits\<close> follows the loop of \<open>#match\<close> and records, for every iteration that
  makes a trade, the order \<open>best\<close> it peeked and the array of the opposing heap at that
  moment.
\<close>

function match_visits :: "order \<Rightarrow> order \<Rightarrow> book \<Rightarrow> (order \<times> order list) list" where
  "match_visits order remainder b =
     (if js_lt (Num 0) (quantity remainder) \<and> opposingHeap order b \<noteq> [] then
        (let best = hd (opposingHeap order b) in
         if \<not> priceMatches order remainder best then []
         else (best, opposingHeap order b) #
              match_visits order (fill_remainder b remainder best)
                (fill_best b order remainder best))
      else [])"
  by pat_completeness auto
termination
proof (relation "measure (\<lambda>(order, remainder, b). match_measure order remainder b)")
  show "wf (measure (\<lambda>(order, remainder, b). match_measure order remainder b))"
    by simp
next
  fix order remainder :: order and b :: book and x :: order
  assume a: "js_lt (Num 0) (quantity remainder) \<and> opposingHeap order b \<noteq> []"
    and x: "x = hd (opposingHeap order b)"
  then have "opposingHeap order b = x # tl (opposingHeap order b)" by simp
  then have "match_measure order (fill_remainder b remainder x) (fill_best b order remainder x)
           < match_measure order remainder b"
    using a match_measure_decreases by blast
  then show "((order, fill_remainder b remainder x, fill_best b order remainder x),
      order, remainder, b)
     \<in> measure (\<lambda>(order, remainder, b). match_measure order remainder b)"
    by simp
qed

declare match_visits.simps [simp del]

definition addOrder_visits :: "clock \<Rightarrow> raw_order \<Rightarrow> book \<Rightarrow> (order \<times> order list) list" where
  "addOrder_visits clk order b =
     (case validateOrder order of
        Some e \<Rightarrow> []
      | None \<Rightarrow> match_visits (normalise clk order b) (normalise clk order b) b)"

text \<open>The id a trade records for the resting side.\<close>

definition restingOrderId :: "string \<Rightarrow> trade \<Rightarrow> string" where
  "restingOrderId sd t = (if sd = BUY then sellOrderId t else buyOrderId t)"

lemma match_loop_trades:
  "match_loop clk k order remainder trs b = (trs', remainder', b') \<Longrightarrow>
   map (\<lambda>t. (tprice t, restingOrderId (side order) t)) trs' =
     map (\<lambda>t. (tprice t, restingOrderId (side order) t)) trs @
     map (\<lambda>v. (price (fst v), oid (fst v))) (match_visits order remainder b)"
proof (induction clk k order remainder trs b rule: match_loop.induct)
  case (1 clk k order remainder trs b)
  show ?case
  proof (cases "js_lt (Num 0) (quantity remainder) \<and> opposingHeap order b \<noteq> [] \<and>
      priceMatches order remainder (hd (opposingHeap order b))")
    case True
    let ?best = "hd (opposingHeap order b)"
    let ?t = "make_trade clk k b order remainder ?best"
    have v: "match_visits order remainder b = (?best, opposingHeap order b) #
        match_visits order (fill_remainder b remainder ?best) (fill_best b order remainder ?best)"
      using True by (subst match_visits.simps) (simp add: Let_def)
    have "match_loop clk (k + 2) order (fill_remainder b remainder ?best)
        (trs @ [?t]) (fill_best b order remainder ?best) = (trs', remainder', b')"
      using "1.prems" True by (subst (asm) match_loop.simps) (simp add: Let_def)
    then have "map (\<lambda>t. (tprice t, restingOrderId (side order) t)) trs' =
        map (\<lambda>t. (tprice t, restingOrderId (side order) t)) (trs @ [?t]) @
        map (\<lambda>v. (price (fst v), oid (fst v)))
          (match_visits order (fill_remainder b remainder ?best) (fill_best b order remainder ?best))"
      using "1.IH" [OF _ refl] True by simp
    moreover have "tprice ?t = price ?best" "restingOrderId (side order) ?t = oid ?best"
      by (simp_all add: make_trade_def restingOrderId_def)
    ultimately show ?thesis using v by simp
  next
    case False
    then have "match_loop clk k order remainder trs b = (trs, remainder, b)"
      by (subst match_loop.simps) (auto simp: Let_def)
    moreover have "match_visits order remainder b = []"
      using False by (subst match_visits.simps) (auto simp: Let_def)
    ultimately show ?thesis using "1.prems" by simp
  qed
qed

lemma match_visits_wf:
  "loop_wf order remainder b \<Longrightarrow> (best, h) \<in> set (match_visits order remainder b) \<Longrightarrow>
   h \<noteq> [] \<and> best = hd h \<and> key_heap (opposingKey order) h \<and> (\<forall>x\<in>set h. priced x)"
proof (induction order remainder b rule: match_visits.induct)
  case (1 order remainder b)
  show ?case
  proof (cases "js_lt (Num 0) (quantity remainder) \<and> opposingHeap order b \<noteq> [] \<and>
      priceMatches order remainder (hd (opposingHeap order b))")
    case True
    let ?best = "hd (opposingHeap order b)"
    have h: "opposingHeap order b = ?best # tl (opposingHeap order b)" using True by simp
    have v: "match_visits order remainder b = (?best, opposingHeap order b) #
        match_visits order (fill_remainder b remainder ?best) (fill_best b order remainder ?best)"
      using True by (subst match_visits.simps) (simp add: Let_def)
    show ?thesis
    proof (cases "(best, h) = (?best, opposingHeap order b)")
      case True
      then show ?thesis using "1.prems"(1) \<open>js_lt (Num 0) (quantity remainder) \<and> opposingHeap order b \<noteq> [] \<and>
        priceMatches order remainder (hd (opposingHeap order b))\<close> by (simp add: loop_wf_def)
    next
      case False
      then have "(best, h) \<in> set (match_visits order (fill_remainder b remainder ?best)
          (fill_best b order remainder ?best))"
        using "1.prems"(2) v by auto
      then show ?thesis
        using "1.IH" [OF _ refl _ loop_wf_step [OF "1.prems"(1) h]] True by simp
    qed
  next
    case False
    then have "match_visits order remainder b = []"
      by (subst match_visits.simps) (auto simp: Let_def)
    then show ?thesis using "1.prems" by simp
  qed
qed

lemma opposingKey_earlier:
  assumes "priced x" and "priced y" and "price x = price y"
    and "js_lt (timestamp x) (timestamp y)"
  shows "opposingKey order x < opposingKey order y"
proof -
  have "rank (timestamp x) < rank (timestamp y)"
    using assms by (simp add: js_lt_rank priced_def)
  then show ?thesis using assms(3)
    by (simp add: opposingKey_def askKey_def bidKey_def)
qed

text \<open>
  An order of the opposing heap whose key is below the key of the order filled in the
  \<open>j\<close>-th iteration has itself been filled in an earlier iteration: it was in the heap,
  it is no longer above the top, and only the top ever leaves the heap.
\<close>

lemma match_visits_priority:
  "loop_wf order remainder b \<Longrightarrow> x \<in> set (opposingHeap order b) \<Longrightarrow>
   j < length (match_visits order remainder b) \<Longrightarrow>
   opposingKey order x < opposingKey order (fst (match_visits order remainder b ! j)) \<Longrightarrow>
   \<exists>i<j. \<exists>q. fst (match_visits order remainder b ! i) = x\<lparr>quantity := q\<rparr>"
proof (induction order remainder b arbitrary: j rule: match_visits.induct)
  case (1 order remainder b)
  show ?case
  proof (cases "js_lt (Num 0) (quantity remainder) \<and> opposingHeap order b \<noteq> [] \<and>
      priceMatches order remainder (hd (opposingHeap order b))")
    case True
    let ?best = "hd (opposingHeap order b)"
    let ?r' = "fill_remainder b remainder ?best"
    let ?b' = "fill_best b order remainder ?best"
    have h: "opposingHeap order b = ?best # tl (opposingHeap order b)" using True by simp
    have v: "match_visits order remainder b = (?best, opposingHeap order b) #
        match_visits order ?r' ?b'"
      using True by (subst match_visits.simps) (simp add: Let_def)
    have kh: "key_heap (opposingKey order) (?best # tl (opposingHeap order b))"
      using "1.prems"(1) h by (simp add: loop_wf_def)
    have xin: "x \<in> set (?best # tl (opposingHeap order b))" using "1.prems"(2) h by simp
    have top: "opposingKey order ?best \<le> opposingKey order x"
      by (rule key_heap_hd [OF kh xin])
    show ?thesis
    proof (cases j)
      case 0
      then have "opposingKey order x < opposingKey order ?best" using "1.prems"(4) v by simp
      then show ?thesis using top by simp
    next
      case (Suc j')
      show ?thesis
      proof (cases "x = ?best")
        case True
        have "fst (match_visits order remainder b ! 0) = x\<lparr>quantity := quantity x\<rparr>"
          using v True by simp
        then show ?thesis using Suc by blast
      next
        case False
        then have "x \<in> set (tl (opposingHeap order b))" using xin by simp
        then have x': "x \<in> set (opposingHeap order ?b')"
          using set_opposing_fill_best [OF h, of remainder] by (simp split: if_splits)
        have j': "j' < length (match_visits order ?r' ?b')" using "1.prems"(3) v Suc by simp
        have k': "opposingKey order x < opposingKey order (fst (match_visits order ?r' ?b' ! j'))"
          using "1.prems"(4) v Suc by simp
        have "\<exists>i<j'. \<exists>q. fst (match_visits order ?r' ?b' ! i) = x\<lparr>quantity := q\<rparr>"
          using "1.IH" [OF _ refl _ loop_wf_step [OF "1.prems"(1) h] x' j' k'] True by simp
        then obtain i q where i: "i < j'" "fst (match_visits order ?r' ?b' ! i) = x\<lparr>quantity := q\<rparr>"
          by blast
        have "Suc i < j" using i(1) Suc by simp
        moreover have "fst (match_visits order remainder b ! Suc i) = x\<lparr>quantity := q\<rparr>"
          using v i(2) by simp
        ultimately show ?thesis by blast
      qed
    qed
  next
    case False
    then have "match_visits order remainder b = []"
      by (subst match_visits.simps) (auto simp: Let_def)
    then show ?thesis using "1.prems" by simp
  qed
qed

text \<open>Every order the loop fills is an order of the heap before the call, up to its quantity.\<close>

lemma match_visits_frame:
  "(\<forall>z\<in>set (opposingHeap order b). \<exists>y\<in>H. z = y\<lparr>quantity := quantity z\<rparr>) \<Longrightarrow>
   v \<in> set (match_visits order remainder b) \<Longrightarrow>
   \<exists>y\<in>H. fst v = y\<lparr>quantity := quantity (fst v)\<rparr>"
proof (induction order remainder b rule: match_visits.induct)
  case (1 order remainder b)
  show ?case
  proof (cases "js_lt (Num 0) (quantity remainder) \<and> opposingHeap order b \<noteq> [] \<and>
      priceMatches order remainder (hd (opposingHeap order b))")
    case True
    let ?best = "hd (opposingHeap order b)"
    let ?r' = "fill_remainder b remainder ?best"
    let ?b' = "fill_best b order remainder ?best"
    have h: "opposingHeap order b = ?best # tl (opposingHeap order b)" using True by simp
    have vs: "match_visits order remainder b = (?best, opposingHeap order b) #
        match_visits order ?r' ?b'"
      using True by (subst match_visits.simps) (simp add: Let_def)
    have bH: "\<exists>y\<in>H. ?best = y\<lparr>quantity := quantity ?best\<rparr>"
      using "1.prems"(1) True by simp
    show ?thesis
    proof (cases "v = (?best, opposingHeap order b)")
      case True
      then show ?thesis using bH by simp
    next
      case False
      then have vin: "v \<in> set (match_visits order ?r' ?b')" using "1.prems"(2) vs by simp
      obtain y where y: "y \<in> H" "?best = y\<lparr>quantity := quantity ?best\<rparr>" using bH by blast
      have "?best\<lparr>quantity := q\<rparr> = y\<lparr>quantity := q\<rparr>" for q
        using arg_cong [OF y(2), of "\<lambda>z. z\<lparr>quantity := q\<rparr>"] by simp
      then have upd: "\<exists>y\<in>H. ?best\<lparr>quantity := q\<rparr> = y\<lparr>quantity := quantity (?best\<lparr>quantity := q\<rparr>)\<rparr>"
        for q using y(1) by auto
      have tl: "\<forall>z\<in>set (tl (opposingHeap order b)). \<exists>y\<in>H. z = y\<lparr>quantity := quantity z\<rparr>"
        using "1.prems"(1) h by (metis list.set_intros(2))
      have "\<forall>z\<in>set (opposingHeap order ?b'). \<exists>y\<in>H. z = y\<lparr>quantity := quantity z\<rparr>"
        using tl upd set_opposing_fill_best [OF h, of remainder] by (simp split: if_splits)
      then show ?thesis using "1.IH" [OF _ refl _ _ vin] True by simp
    qed
  next
    case False
    then have "match_visits order remainder b = []"
      by (subst match_visits.simps) (auto simp: Let_def)
    then show ?thesis using "1.prems" by simp
  qed
qed

section \<open>Example books and orders\<close>

definition ex_clock :: clock where
  "ex_clock k = 1000 + int k"

definition limit_order :: "string \<Rightarrow> string \<Rightarrow> rat \<Rightarrow> rat \<Rightarrow> int \<Rightarrow> raw_order" where
  "limit_order i sd p q ts =
     \<lparr>r_id = Some i, r_side = Some sd, r_type = None, r_price = Some (Num p),
      r_quantity = Some (Num q), r_peerId = None, r_timestamp = Some (Num (of_int ts)),
      r_remote = None\<rparr>"

definition market_order :: "string \<Rightarrow> string \<Rightarrow> rat \<Rightarrow> raw_order" where
  "market_order i sd q =
     \<lparr>r_id = Some i, r_side = Some sd, r_type = Some MARKET, r_price = None,
      r_quantity = Some (Num q), r_peerId = None, r_timestamp = None, r_remote = None\<rparr>"

definition resting :: "string \<Rightarrow> string \<Rightarrow> rat \<Rightarrow> rat \<Rightarrow> int \<Rightarrow> order" where
  "resting i sd p q ts =
     \<lparr>oid = i, side = sd, otype = LIMIT, price = Some (Num p), quantity = Num q, peerId = None,
      timestamp = Num (of_int ts), status = OPEN\<rparr>"

text \<open>\<open>add_all\<close> hands a list of orders to \<open>addOrder\<close>, one after the other.\<close>

definition add_all :: "raw_order list \<Rightarrow> book \<Rightarrow> book" where
  "add_all orders b = fold (\<lambda>order b. snd (addOrder ex_clock order b)) orders b"

lemma reach_add_all:
  "reach accept admit b \<Longrightarrow> list_all accept orders \<Longrightarrow> reach accept admit (add_all orders b)"
proof (induction orders arbitrary: b)
  case Nil
  then show ?case by (simp add: add_all_def)
next
  case (Cons order orders)
  have "reach accept admit (snd (addOrder ex_clock order b))"
    using Cons.prems by (simp add: reach.add)
  then have "reach accept admit (add_all orders (snd (addOrder ex_clock order b)))"
    using Cons.IH Cons.prems by simp
  then show ?case by (simp add: add_all_def)
qed

lemma limit_order_accepted [simp]:
  "price_not_NaN (limit_order i sd p q ts)" "quantity_not_Infinity (limit_order i sd p q ts)"
  "any_order order"
  by (simp_all add: price_not_NaN_def quantity_not_Infinity_def any_order_def limit_order_def)

text \<open>An empty book with the default precisions and all three hooks registered.\<close>

definition ex_empty :: book where
  "ex_empty =
     \<lparr>pair = ''BTC/USDT'', pricePrecision = 2, quantityPrecision = 8, bids = [], asks = [],
      trades = [], onTrade = True, onOrderAdded = True, onOrderRemoved = True, hook_log = []\<rparr>"

text \<open>The same book with one resting sell order \<open>s1\<close>: 1 at 100.\<close>

definition ex_book_s1 :: book where
  "ex_book_s1 = ex_empty\<lparr>asks := [resting ''s1'' SELL 100 1 1]\<rparr>"

lemma new_OrderBook_ex_empty:
  "new_OrderBook ''BTC/USDT'' None None True True True = Some ex_empty"
  by (simp add: new_OrderBook_def ex_empty_def)

lemma ex_book_s1_built:
  "snd (addOrder ex_clock (limit_order ''s1'' SELL 100 1 1) ex_empty)
     = ex_book_s1\<lparr>hook_log := [\<lparr>hc_event = ORDER_ADDED,
          hc_data = POrder (resting ''s1'' SELL 100 1 1), hc_trades = []\<rparr>]\<rparr>"
  by code_simp

lemma reach_ex_empty: "reach accept admit ex_empty"
  by (rule reach.new [OF new_OrderBook_ex_empty])

text \<open>
  A book with depth on both sides: the asks \<open>a1\<close> (1 at 100), \<open>a2\<close> (2 at 110) and
  \<open>a3\<close> (1 at 105) and the bids \<open>b1\<close> (1 at 90) and \<open>b2\<close> (1 at 95) rest, then the bid
  \<open>b3\<close> (3 at 100) takes \<open>a1\<close> and rests partially filled with 2.
\<close>

definition depth_orders :: "raw_order list" where
  "depth_orders =
     [limit_order ''a1'' SELL 100 1 1, limit_order ''a2'' SELL 110 2 2,
      limit_order ''a3'' SELL 105 1 3, limit_order ''b1'' BUY 90 1 4,
      limit_order ''b2'' BUY 95 1 5, limit_order ''b3'' BUY 100 3 6]"

definition ex_book_depth :: book where
  "ex_book_depth = add_all depth_orders ex_empty"

lemma reach_ex_book_depth:
  "reach price_not_NaN admit ex_book_depth" "reach quantity_not_Infinity admit ex_book_depth"
  unfolding ex_book_depth_def
  by (rule reach_add_all [OF reach_ex_empty], simp add: depth_orders_def)+

text \<open>Scenario S4: \<open>a1\<close> sells 1 at 100 and \<open>a2\<close> sells 2 at 110.\<close>

definition ex_book_s4 :: book where
  "ex_book_s4 =
     snd (addOrder ex_clock (limit_order ''a2'' SELL 110 2 2)
       (snd (addOrder ex_clock (limit_order ''a1'' SELL 100 1 1) ex_empty)))"

text \<open>
  Four asks, entered out of time order: \<open>a3\<close> (timestamp 3000), \<open>a1\<close> (1000) and
  \<open>a2\<close> (2000) each sell 1 at 100, and \<open>a4\<close> (500) sells 1 at 101.
\<close>

definition fifo_orders :: "raw_order list" where
  "fifo_orders =
     [limit_order ''a3'' SELL 100 1 3000, limit_order ''a1'' SELL 100 1 1000,
      limit_order ''a4'' SELL 101 1 500, limit_order ''a2'' SELL 100 1 2000]"

definition ex_book_fifo :: book where
  "ex_book_fifo = add_all fifo_orders ex_empty"

lemma reach_ex_book_fifo: "reach price_not_NaN admit ex_book_fifo"
  unfolding ex_book_fifo_def
  by (rule reach_add_all [OF reach_ex_empty]) (simp add: fifo_orders_def)

text \<open>
  A limit order with the price \<open>NaN\<close> passes \<open>#validateOrder\<close> and rests. Here the asks
  \<open>X\<close> (at 10), \<open>N\<close> (at \<open>NaN\<close>), \<open>Y\<close> (at 20), \<open>Z\<close> (at 7, timestamp 5) and \<open>W\<close>
  (at 7, timestamp 9) are entered in this order and then \<open>N\<close> is cancelled. No comparison
  with \<open>N\<close> is negative, so \<open>Z\<close> and \<open>W\<close> stay below it; the cancellation moves \<open>W\<close>
  to the top and leaves \<open>Z\<close> below \<open>W\<close>.
\<close>

definition nan_orders :: "raw_order list" where
  "nan_orders =
     [limit_order ''X'' SELL 10 1 1, (limit_order ''N'' SELL 1 1 2)\<lparr>r_price := Some NaN\<rparr>,
      limit_order ''Y'' SELL 20 1 3, limit_order ''Z'' SELL 7 1 5, limit_order ''W'' SELL 7 1 9]"

definition ex_book_nan :: book where
  "ex_book_nan = snd (cancelOrder ''N'' (add_all nan_orders ex_empty))"

section \<open>Claims\<close>

subsection \<open>C1: the trade log and the hooks\<close>

text \<open>
  C1 says that every trade of an \<open>addOrder\<close> call is in the trade log before any hook of
  that call runs, the \<open>ORDER_REMOVED\<close> hook included. The comment in \<open>addOrder\<close> says
  the same ("Push trades to history FIRST before any hooks fire"), but \<open>#match\<close> emits
  \<open>ORDER_REMOVED\<close> inside its loop, before \<open>addOrder\<close> pushes the trades. With \<open>s1\<close>
  resting (sell 1 at 100), the buy order \<open>b1\<close> (1 at 100) makes one trade; the
  \<open>ORDER_REMOVED\<close> hook runs first and reads an empty trade log, and only the
  \<open>TRADE\<close> hook reads the log with the trade in it.
\<close>

theorem order_removed_hook_reads_stale_trades:
  "length (res_trades (projr (fst (addOrder ex_clock (limit_order ''b1'' BUY 100 1 2) ex_book_s1)))) = 1
   \<and> map hc_event (hook_log (snd (addOrder ex_clock (limit_order ''b1'' BUY 100 1 2) ex_book_s1)))
       = [ORDER_REMOVED, TRADE]
   \<and> map (length \<circ> hc_trades)
        (hook_log (snd (addOrder ex_clock (limit_order ''b1'' BUY 100 1 2) ex_book_s1)))
       = [0, 1]"
  by code_simp

subsection \<open>C2: the book is uncrossed\<close>






subsection \<open>C3: snapshot round trip\<close>

text \<open>The five fields by which C3 compares resting orders.\<close>

definition order_key :: "order \<Rightarrow> string \<times> number option \<times> number \<times> number \<times> string" where
  "order_key x = (oid x, price x, quantity x, timestamp x, side x)"

text \<open>
  C3 as stated ("for every book") fails: the round trip rebuilds the heaps by inserting
  the orders one by one, which gives the same arrays only if the arrays are in heap order,
  and the book does not always keep them so. With the asks of \<open>ex_book_nan\<close> (built by
  \<open>addOrder\<close> and \<open>cancelOrder\<close> alone, one order having the price \<open>NaN\<close>) the best
  ask is \<open>W\<close> before the round trip and \<open>Z\<close> after it. The same happens without
  \<open>NaN\<close> once a snapshot with \<open>null\<close> prices has been loaded: \<open>null\<close> and \<open>0\<close> differ
  under \<open>!==\<close> and their difference is \<open>0\<close>, so an order priced \<open>null\<close> and an order
  priced \<open>0\<close> are never swapped, whatever their timestamps. After \<open>B\<close> is cancelled the
  best ask is \<open>A5\<close>, and after the round trip it is \<open>A3\<close>.
\<close>

definition null_ask :: "string \<Rightarrow> int \<Rightarrow> order" where
  "null_ask i ts = (resting i SELL 0 1 ts)\<lparr>price := None\<rparr>"

definition null_snapshot :: snapshot where
  "null_snapshot =
     \<lparr>s_pair = ''BTC/USDT'', s_timestamp = 1000, s_bids = [],
      s_asks = [null_ask ''A5'' 5, resting ''B'' SELL 0 1 1, null_ask ''A7'' 7,
                null_ask ''A3'' 3, null_ask ''A6'' 6],
      s_bestBid = None, s_bestAsk = Some (null_ask ''A5'' 5), s_spread = None\<rparr>"

definition ex_book_null :: book where
  "ex_book_null = snd (cancelOrder ''B'' (projr (loadSnapshot null_snapshot ex_empty)))"

theorem round_trip_changes_best_ask:
  "map validateOrder nan_orders = [None, None, None, None, None] \<and>
   new_OrderBook (pair ex_book_nan) (Some (pricePrecision ex_book_nan))
     (Some (quantityPrecision ex_book_nan)) True True True = Some ex_empty \<and>
   map oid (asks ex_book_nan) = [''W'', ''Z'', ''Y'', ''X''] \<and>
   map_option oid (bestAsk ex_book_nan) = Some ''W'' \<and>
   map_option oid (bestAsk (projr (loadSnapshot (getSnapshot ex_clock ex_book_nan) ex_empty)))
     = Some ''Z'' \<and>
   new_OrderBook (pair ex_book_null) (Some (pricePrecision ex_book_null))
     (Some (quantityPrecision ex_book_null)) True True True = Some ex_empty \<and>
   map oid (asks ex_book_null) = [''A5'', ''A3'', ''A7'', ''A6''] \<and>
   map_option oid (bestAsk ex_book_null) = Some ''A5'' \<and>
   map_option oid (bestAsk (projr (loadSnapshot (getSnapshot ex_clock ex_book_null) ex_empty)))
     = Some ''A3''"
  by code_simp

text \<open>
  C3, amended: take any book obtained from a new book by \<open>addOrder\<close>,
  \<open>applyRemoteOrder\<close>, \<open>cancelOrder\<close> and \<open>loadSnapshot\<close>, such that no limit order
  handed to \<open>addOrder\<close> or \<open>applyRemoteOrder\<close> had the price \<open>NaN\<close>, and every
  snapshot loaded held only priced orders (price not \<open>null\<close> and not \<open>NaN\<close>, timestamp
  not \<open>NaN\<close>). A new book with the same pair and precisions accepts the snapshot that
  \<open>getSnapshot\<close> takes of such a book, and after \<open>loadSnapshot\<close> it has the same best
  bid, best ask and spread and the same multiset of resting orders by id, price, quantity,
  timestamp and side. (Both arrays are in heap order, so inserting their elements one by
  one rebuilds the same arrays. Equality is equality of values: a spread \<open>NaN\<close> comes
  back as \<open>NaN\<close>.)
\<close>

theorem snapshot_round_trip:
  assumes "reach price_not_NaN admit_priced b"
  shows "\<exists>fresh b'.
     new_OrderBook (pair b) (Some (pricePrecision b)) (Some (quantityPrecision b))
       hTrade hAdded hRemoved = Some fresh \<and>
     loadSnapshot (getSnapshot clk b) fresh = Inr b' \<and>
     bestBid b' = bestBid b \<and> bestAsk b' = bestAsk b \<and> spread b' = spread b \<and>
     mset (map order_key (bids b' @ asks b')) = mset (map order_key (bids b @ asks b))"
proof -
  have wf: "wf_inv b" by (rule reach_wf_inv [OF _ _ assms]) (simp_all add: admit_priced_def)
  have p: "pair b \<noteq> []" by (rule reach_pair [OF assms])
  define fresh where "fresh =
     \<lparr>pair = pair b, pricePrecision = pricePrecision b, quantityPrecision = quantityPrecision b,
      bids = [], asks = [], trades = [], onTrade = hTrade, onOrderAdded = hAdded,
      onOrderRemoved = hRemoved, hook_log = []\<rparr>"
  define b' where "b' = fresh\<lparr>bids := bids b, asks := asks b\<rparr>"
  have n: "new_OrderBook (pair b) (Some (pricePrecision b)) (Some (quantityPrecision b))
       hTrade hAdded hRemoved = Some fresh"
    using p by (simp add: new_OrderBook_def fresh_def)
  have l: "loadSnapshot (getSnapshot clk b) fresh = Inr b'"
    using wf_inv_reload [OF wf] by (simp add: loadSnapshot_def getSnapshot_def fresh_def b'_def)
  have e: "bids b' = bids b" "asks b' = asks b" "pricePrecision b' = pricePrecision b"
    by (simp_all add: b'_def fresh_def)
  then have "bestBid b' = bestBid b \<and> bestAsk b' = bestAsk b \<and> spread b' = spread b \<and>
     mset (map order_key (bids b' @ asks b')) = mset (map order_key (bids b @ asks b))"
    by (simp add: bestBid_def bestAsk_def spread_def cong: option.case_cong)
  then show ?thesis using n l by blast
qed

text \<open>The round trip of the book with depth on both sides: three bids and two asks.\<close>

theorem snapshot_round_trip_witness:
  "reach price_not_NaN admit_priced ex_book_depth \<and>
   (\<exists>fresh b'.
      new_OrderBook ''BTC/USDT'' (Some 2) (Some 8) False False False = Some fresh \<and>
      loadSnapshot (getSnapshot ex_clock ex_book_depth) fresh = Inr b' \<and>
      bestBid b' = Some ((resting ''b3'' BUY 100 2 6)\<lparr>status := PARTIALLY_FILLED\<rparr>) \<and>
      bestAsk b' = Some (resting ''a3'' SELL 105 1 3) \<and>
      spread b' = Some (Num 5) \<and>
      mset (map order_key (bids b' @ asks b')) =
        {#(''b3'', Some (Num 100), Num 2, Num 6, BUY), (''b1'', Some (Num 90), Num 1, Num 4, BUY),
          (''b2'', Some (Num 95), Num 1, Num 5, BUY), (''a3'', Some (Num 105), Num 1, Num 3, SELL),
          (''a2'', Some (Num 110), Num 2, Num 2, SELL)#})"
proof -
  have f: "pair ex_book_depth = ''BTC/USDT''" "pricePrecision ex_book_depth = 2"
    "quantityPrecision ex_book_depth = 8" by code_simp+
  have v: "bestBid ex_book_depth = Some ((resting ''b3'' BUY 100 2 6)\<lparr>status := PARTIALLY_FILLED\<rparr>)"
    "bestAsk ex_book_depth = Some (resting ''a3'' SELL 105 1 3)"
    "spread ex_book_depth = Some (Num 5)"
    "map order_key (bids ex_book_depth @ asks ex_book_depth) =
       [(''b3'', Some (Num 100), Num 2, Num 6, BUY), (''b1'', Some (Num 90), Num 1, Num 4, BUY),
        (''b2'', Some (Num 95), Num 1, Num 5, BUY), (''a3'', Some (Num 105), Num 1, Num 3, SELL),
        (''a2'', Some (Num 110), Num 2, Num 2, SELL)]"
    by code_simp+
  have ms: "image_mset order_key (mset (bids ex_book_depth)) +
      image_mset order_key (mset (asks ex_book_depth)) =
      {#(''b3'', Some (Num 100), Num 2, Num 6, BUY), (''b1'', Some (Num 90), Num 1, Num 4, BUY),
        (''b2'', Some (Num 95), Num 1, Num 5, BUY), (''a3'', Some (Num 105), Num 1, Num 3, SELL),
        (''a2'', Some (Num 110), Num 2, Num 2, SELL)#}"
    using arg_cong [OF v(4), of mset] by simp
  show ?thesis
    using snapshot_round_trip [OF reach_ex_book_depth(1), of False False False ex_clock]
      reach_ex_book_depth(1) [of admit_priced]
    by (simp add: f v(1,2,3) ms)
qed

subsection \<open>C4: trades are priced at the resting order\<close>

text \<open>
  C4: the trades that a call of \<open>addOrder\<close> returns are, in order, one for each order
  that the matching loop peeked from the top of the opposing heap and filled
  (\<open>addOrder_visits\<close>); each trade carries the price of that resting order, as it was
  when peeked, and records that order's id on the resting side - whatever the price of
  the incoming order.
\<close>

theorem trade_price_is_resting_price:
  assumes "fst (addOrder clk order b) = Inr res"
  shows "map (\<lambda>t. (tprice t, restingOrderId (the (r_side order)) t)) (res_trades res) =
     map (\<lambda>v. (price (fst v), oid (fst v))) (addOrder_visits clk order b)"
proof (cases "validateOrder order")
  case (Some e)
  then show ?thesis using assms by (simp add: addOrder_def)
next
  case None
  let ?n = "normalise clk order b"
  obtain trs rem b1 where m: "match clk (clock_reads order) ?n b = (trs, rem, b1)"
    by (cases "match clk (clock_reads order) ?n b") auto
  have r: "res_trades res = trs" using addOrder_book(7) [OF None m] assms by auto
  have s: "side ?n = the (r_side order)" by (simp add: normalise_def)
  show ?thesis
    using match_loop_trades [OF m [unfolded match_def]] r s None
    by (simp add: addOrder_visits_def)
qed

text \<open>
  A bid of 2.5 at 120 against the asks of scenario S4 trades at 100 and at 110, never at
  120.
\<close>

theorem trade_price_is_resting_price_witness:
  "map (\<lambda>v. (price (fst v), oid (fst v)))
     (addOrder_visits ex_clock (limit_order ''b1'' BUY 120 (5 / 2) 3) ex_book_s4)
     = [(Some (Num 100), ''a1''), (Some (Num 110), ''a2'')] \<and>
   map (\<lambda>t. (tprice t, sellOrderId t))
     (res_trades (projr (fst (addOrder ex_clock (limit_order ''b1'' BUY 120 (5 / 2) 3) ex_book_s4))))
     = [(Some (Num 100), ''a1''), (Some (Num 110), ''a2'')]"
proof -
  let ?o = "limit_order ''b1'' BUY 120 (5 / 2) 3"
  have e: "fst (addOrder ex_clock ?o ex_book_s4) = Inr (projr (fst (addOrder ex_clock ?o ex_book_s4)))"
    by code_simp
  have s: "the (r_side ?o) = BUY" by (simp add: limit_order_def)
  have v: "map (\<lambda>v. (price (fst v), oid (fst v))) (addOrder_visits ex_clock ?o ex_book_s4)
     = [(Some (Num 100), ''a1''), (Some (Num 110), ''a2'')]"
    by code_simp
  show ?thesis
    using trade_price_is_resting_price [OF e] v by (simp add: s restingOrderId_def)
qed

subsection \<open>C5: price-time priority\<close>

text \<open>
  C5 as stated fails: the top of a heap is the earliest order at the best price only
  while the array is in heap order. In \<open>ex_book_nan\<close> (built by \<open>addOrder\<close> and
  \<open>cancelOrder\<close> alone, one order having the price \<open>NaN\<close>) the asks \<open>W\<close>
  (timestamp 9) and \<open>Z\<close> (timestamp 5) both rest at 7 and \<open>W\<close> is on top: a bid of 2 at
  7 is matched against \<open>W\<close> first and against \<open>Z\<close> second.
\<close>

theorem later_order_matched_first:
  "map validateOrder nan_orders = [None, None, None, None, None] \<and>
   map (\<lambda>x. (oid x, price x, timestamp x)) (asks ex_book_nan) =
     [(''W'', Some (Num 7), Num 9), (''Z'', Some (Num 7), Num 5),
      (''Y'', Some (Num 20), Num 3), (''X'', Some (Num 10), Num 1)] \<and>
   map sellOrderId
     (res_trades (projr (fst (addOrder ex_clock (limit_order ''b1'' BUY 7 2 20) ex_book_nan))))
     = [''W'', ''Z'']"
  by code_simp

text \<open>
  C5, amended: take any book obtained from a new book by \<open>addOrder\<close>,
  \<open>applyRemoteOrder\<close>, \<open>cancelOrder\<close> and \<open>loadSnapshot\<close>, such that no limit order
  handed to \<open>addOrder\<close> or \<open>applyRemoteOrder\<close> had the price \<open>NaN\<close>, and every
  snapshot loaded held only priced orders (price not \<open>null\<close> and not \<open>NaN\<close>, timestamp
  not \<open>NaN\<close>). Let a call of \<open>addOrder\<close> on such a book return, and let \<open>x\<close> and
  \<open>y\<close> be two orders resting in the opposing heap before the call, with equal price and
  the timestamp of \<open>x\<close> earlier than that of \<open>y\<close>. Then the call returns one trade for
  each fill of the matching loop, in order, each against the order on top of the opposing
  heap at that moment; whenever a fill is against \<open>y\<close>, an earlier fill of the same call
  is against \<open>x\<close>, and the trade returned for it records the id of \<open>x\<close>; and when the
  ids in the opposing heap are distinct, every returned trade against the id of \<open>y\<close> is
  preceded in the returned list by a trade against the id of \<open>x\<close>.
\<close>

theorem price_time_priority:
  assumes r: "reach price_not_NaN admit_priced b"
    and a: "fst (addOrder clk order b) = Inr res"
    and x: "x \<in> set (opposingHeap (normalise clk order b) b)"
    and y: "y \<in> set (opposingHeap (normalise clk order b) b)"
    and p: "price x = price y" and t: "js_lt (timestamp x) (timestamp y)"
  shows "length (res_trades res) = length (addOrder_visits clk order b) \<and>
    (\<forall>j<length (addOrder_visits clk order b).
       restingOrderId (the (r_side order)) (res_trades res ! j)
         = oid (hd (snd (addOrder_visits clk order b ! j))) \<and>
       fst (addOrder_visits clk order b ! j) = hd (snd (addOrder_visits clk order b ! j))) \<and>
    (\<forall>j<length (addOrder_visits clk order b).
       (\<exists>q. fst (addOrder_visits clk order b ! j) = y\<lparr>quantity := q\<rparr>) \<longrightarrow>
       (\<exists>i<j. (\<exists>q. fst (addOrder_visits clk order b ! i) = x\<lparr>quantity := q\<rparr>) \<and>
              restingOrderId (the (r_side order)) (res_trades res ! i) = oid x)) \<and>
    (distinct (map oid (opposingHeap (normalise clk order b) b)) \<longrightarrow>
       (\<forall>j<length (res_trades res).
          restingOrderId (the (r_side order)) (res_trades res ! j) = oid y \<longrightarrow>
          (\<exists>i<j. restingOrderId (the (r_side order)) (res_trades res ! i) = oid x)))"
proof -
  let ?n = "normalise clk order b"
  let ?V = "addOrder_visits clk order b"
  let ?T = "res_trades res"
  let ?sd = "the (r_side order)"
  have None: "validateOrder order = None"
    using a by (cases "validateOrder order") (simp_all add: addOrder_def)
  have V: "?V = match_visits ?n ?n b" using None by (simp add: addOrder_visits_def)
  obtain trs rem b1 where m: "match clk (clock_reads order) ?n b = (trs, rem, b1)"
    by (cases "match clk (clock_reads order) ?n b") auto
  have T: "?T = trs" using addOrder_book(7) [OF None m] a by auto
  have s: "side ?n = ?sd" by (simp add: normalise_def)
  have eq: "map (\<lambda>t. (tprice t, restingOrderId ?sd t)) ?T =
      map (\<lambda>v. (price (fst v), oid (fst v))) ?V"
    using match_loop_trades [OF m [unfolded match_def]] T s V by simp
  have len: "length ?T = length ?V" using arg_cong [OF eq, of length] by simp
  have nth: "restingOrderId ?sd (?T ! j) = oid (fst (?V ! j))" if "j < length ?V" for j
  proof -
    have "map (\<lambda>t. (tprice t, restingOrderId ?sd t)) ?T ! j =
        map (\<lambda>v. (price (fst v), oid (fst v))) ?V ! j"
      using eq by simp
    then show ?thesis using that len by simp
  qed
  have wf: "wf_inv b" by (rule reach_wf_inv [OF _ _ r]) (simp_all add: admit_priced_def)
  have lw: "loop_wf ?n ?n b" by (rule wf_inv_opposing [OF wf])
  have px: "priced x" and py: "priced y" using lw x y by (simp_all add: loop_wf_def)
  have top: "fst (?V ! j) = hd (snd (?V ! j))" if "j < length ?V" for j
  proof -
    have "?V ! j \<in> set (match_visits ?n ?n b)" using that V by simp
    then have "(fst (?V ! j), snd (?V ! j)) \<in> set (match_visits ?n ?n b)" by simp
    from match_visits_wf [OF lw this] show ?thesis by simp
  qed
  have B: "\<exists>i<j. (\<exists>q. fst (?V ! i) = x\<lparr>quantity := q\<rparr>) \<and> restingOrderId ?sd (?T ! i) = oid x"
    if j: "j < length ?V" and vj: "fst (?V ! j) = y\<lparr>quantity := q\<rparr>" for j q
  proof -
    have "opposingKey ?n x < opposingKey ?n y" by (rule opposingKey_earlier [OF px py p t])
    then have k: "opposingKey ?n x < opposingKey ?n (fst (match_visits ?n ?n b ! j))"
      using vj V by simp
    have jm: "j < length (match_visits ?n ?n b)" using j V by simp
    obtain i q' where i: "i < j" "fst (match_visits ?n ?n b ! i) = x\<lparr>quantity := q'\<rparr>"
      using match_visits_priority [OF lw x jm k] by blast
    have iv: "fst (?V ! i) = x\<lparr>quantity := q'\<rparr>" using i(2) V by simp
    have "i < length ?V" using i(1) j by simp
    then have "restingOrderId ?sd (?T ! i) = oid x" using nth [of i] iv by simp
    then show ?thesis using i(1) iv by blast
  qed
  have C: "\<exists>i<j. restingOrderId ?sd (?T ! i) = oid x"
    if d: "distinct (map oid (opposingHeap ?n b))" and j: "j < length ?T"
      and rj: "restingOrderId ?sd (?T ! j) = oid y" for j
  proof -
    have jv: "j < length ?V" using j len by simp
    have mem: "?V ! j \<in> set (match_visits ?n ?n b)" using jv V by simp
    have init: "\<forall>z\<in>set (opposingHeap ?n b). \<exists>y\<in>set (opposingHeap ?n b).
        z = y\<lparr>quantity := quantity z\<rparr>"
    proof
      fix z assume "z \<in> set (opposingHeap ?n b)"
      moreover have "z = z\<lparr>quantity := quantity z\<rparr>" by simp
      ultimately show "\<exists>y\<in>set (opposingHeap ?n b). z = y\<lparr>quantity := quantity z\<rparr>" ..
    qed
    obtain z where z: "z \<in> set (opposingHeap ?n b)"
      "fst (?V ! j) = z\<lparr>quantity := quantity (fst (?V ! j))\<rparr>"
      using match_visits_frame [OF init mem] by blast
    have "oid (fst (?V ! j)) = oid z" using arg_cong [OF z(2), of oid] by simp
    then have "oid z = oid y" using nth [OF jv] rj by simp
    moreover have "inj_on oid (set (opposingHeap ?n b))" using d by (simp add: distinct_map)
    ultimately have "z = y" using z(1) y by (simp add: inj_on_def)
    then have "fst (?V ! j) = y\<lparr>quantity := quantity (fst (?V ! j))\<rparr>" using z(2) by simp
    from B [OF jv this] show ?thesis by blast
  qed
  have A: "\<forall>j<length ?V. restingOrderId ?sd (?T ! j) = oid (hd (snd (?V ! j))) \<and>
      fst (?V ! j) = hd (snd (?V ! j))"
    using nth top by simp
  have B': "\<forall>j<length ?V. (\<exists>q. fst (?V ! j) = y\<lparr>quantity := q\<rparr>) \<longrightarrow>
       (\<exists>i<j. (\<exists>q. fst (?V ! i) = x\<lparr>quantity := q\<rparr>) \<and> restingOrderId ?sd (?T ! i) = oid x)"
    using B by blast
  have C': "distinct (map oid (opposingHeap ?n b)) \<longrightarrow>
       (\<forall>j<length ?T. restingOrderId ?sd (?T ! j) = oid y \<longrightarrow>
          (\<exists>i<j. restingOrderId ?sd (?T ! i) = oid x))"
    using C by blast
  show ?thesis using len A B' C' by (intro conjI)
qed

text \<open>
  In \<open>ex_book_fifo\<close> the asks \<open>a1\<close>, \<open>a2\<close> and \<open>a3\<close> rest at 100 and \<open>a4\<close> at 101;
  \<open>a3\<close> entered first. A bid of 3 at 100 is matched against \<open>a1\<close>, \<open>a2\<close> and
  \<open>a3\<close> in this order: the trade against \<open>a2\<close> (timestamp 2000) comes after a trade
  against \<open>a1\<close> (timestamp 1000).
\<close>

theorem price_time_priority_witness:
  "reach price_not_NaN admit_priced ex_book_fifo \<and>
   map oid (asks ex_book_fifo) = [''a1'', ''a2'', ''a4'', ''a3''] \<and>
   map sellOrderId
     (res_trades (projr (fst (addOrder ex_clock (limit_order ''b1'' BUY 100 3 4000) ex_book_fifo))))
     = [''a1'', ''a2'', ''a3''] \<and>
   (\<exists>i<(1::nat). sellOrderId
     (res_trades (projr (fst (addOrder ex_clock (limit_order ''b1'' BUY 100 3 4000) ex_book_fifo)))
        ! i) = ''a1'')"
proof -
  let ?o = "limit_order ''b1'' BUY 100 3 4000"
  let ?x = "resting ''a1'' SELL 100 1 1000" and ?y = "resting ''a2'' SELL 100 1 2000"
  let ?T = "res_trades (projr (fst (addOrder ex_clock ?o ex_book_fifo)))"
  have e: "fst (addOrder ex_clock ?o ex_book_fifo)
      = Inr (projr (fst (addOrder ex_clock ?o ex_book_fifo)))"
    by code_simp
  have h: "opposingHeap (normalise ex_clock ?o ex_book_fifo) ex_book_fifo =
      [?x, ?y, resting ''a4'' SELL 101 1 500, resting ''a3'' SELL 100 1 3000]"
    by code_simp
  have hx: "?x \<in> set (opposingHeap (normalise ex_clock ?o ex_book_fifo) ex_book_fifo)"
    and hy: "?y \<in> set (opposingHeap (normalise ex_clock ?o ex_book_fifo) ex_book_fifo)"
    by (simp_all add: h)
  have p: "price ?x = price ?y" "js_lt (timestamp ?x) (timestamp ?y)"
    by (simp_all add: resting_def)
  have d: "distinct (map oid (opposingHeap (normalise ex_clock ?o ex_book_fifo) ex_book_fifo))"
    by (simp add: h resting_def)
  have sd: "the (r_side ?o) = BUY" by (simp add: limit_order_def)
  have ids: "oid ?x = ''a1''" "oid ?y = ''a2''" by (simp_all add: resting_def)
  have a: "map oid (asks ex_book_fifo) = [''a1'', ''a2'', ''a4'', ''a3'']" by code_simp
  have tr: "map sellOrderId ?T = [''a1'', ''a2'', ''a3'']" by code_simp
  have len: "length ?T = 3" using arg_cong [OF tr, of length] by simp
  have t1: "sellOrderId (?T ! 1) = ''a2''"
    using arg_cong [OF tr, of "\<lambda>l. l ! 1"] len by simp
  have all: "\<forall>j<length ?T. restingOrderId BUY (?T ! j) = ''a2'' \<longrightarrow>
      (\<exists>i<j. restingOrderId BUY (?T ! i) = ''a1'')"
    using price_time_priority [OF reach_ex_book_fifo e hx hy p,
        THEN conjunct2, THEN conjunct2, THEN conjunct2, THEN mp, OF d]
    by (simp only: sd ids)
  have "1 < length ?T" using len by simp
  moreover have "restingOrderId BUY (?T ! 1) = ''a2''" using t1 by (simp add: restingOrderId_def)
  ultimately have "\<exists>i<1. restingOrderId BUY (?T ! i) = ''a1''" using all by blast
  then have "\<exists>i<(1::nat). sellOrderId (?T ! i) = ''a1''" by (simp add: restingOrderId_def)
  then show ?thesis using reach_ex_book_fifo [of admit_priced] a tr by simp
qed

subsection \<open>C6: quantities and statuses of resting orders\<close>

text \<open>
  C6 as stated fails, in two ways. First, \<open>#validateOrder\<close> accepts the quantity
  \<open>Infinity\<close>: when \<open>s1\<close> sells \<open>Infinity\<close> at 100 and \<open>b1\<close> then bids \<open>Infinity\<close> at
  100, the fill trades \<open>Infinity\<close> and leaves \<open>s1\<close> in the heap with the quantity
  \<open>Infinity - Infinity = NaN\<close>, which is not greater than 0. Second, \<open>loadSnapshot\<close>
  inserts the orders of the snapshot as they are. A book with quantity precision 2 loads
  a snapshot whose only ask is open with the positive quantity 0.005 (as a book with a
  finer precision holds it); a bid of 0.01 then trades \<open>round (min 0.01 0.005) = 0.01\<close>
  against it, and the ask stays in the heap with the quantity
  \<open>round (0.005 - 0.01) = -0.01\<close>.
\<close>

definition inf_order :: "string \<Rightarrow> string \<Rightarrow> int \<Rightarrow> raw_order" where
  "inf_order i sd ts = (limit_order i sd 100 1 ts)\<lparr>r_quantity := Some Infinity\<rparr>"

definition fine_snapshot :: snapshot where
  "fine_snapshot =
     \<lparr>s_pair = ''BTC/USDT'', s_timestamp = 1000,
      s_bids = [], s_asks = [resting ''s1'' SELL 100 (5 / 1000) 1],
      s_bestBid = None, s_bestAsk = Some (resting ''s1'' SELL 100 (5 / 1000) 1),
      s_spread = None\<rparr>"

definition coarse_book :: book where
  "coarse_book = projr (loadSnapshot fine_snapshot (ex_empty\<lparr>quantityPrecision := 2\<rparr>))"

theorem resting_quantity_not_positive:
  "map validateOrder [inf_order ''s1'' SELL 1, inf_order ''b1'' BUY 2] = [None, None] \<and>
   map (\<lambda>x. (oid x, quantity x))
     (asks (add_all [inf_order ''s1'' SELL 1, inf_order ''b1'' BUY 2] ex_empty))
     = [(''s1'', NaN)] \<and>
   \<not> js_lt (Num 0) NaN \<and>
   map quantity (asks coarse_book) = [Num (5 / 1000)] \<and>
   map status (asks coarse_book) = [OPEN] \<and>
   map quantity (asks (snd (addOrder ex_clock (limit_order ''b1'' BUY 100 (1 / 100) 2) coarse_book)))
     = [Num (- (1 / 100))] \<and>
   \<not> js_lt (Num 0) (Num (- (1 / 100)))"
  by code_simp

text \<open>
  C6, amended: take any book obtained from a new book by \<open>addOrder\<close>,
  \<open>applyRemoteOrder\<close>, \<open>cancelOrder\<close> and \<open>loadSnapshot\<close>, such that no order handed
  to \<open>addOrder\<close> or \<open>applyRemoteOrder\<close> had the quantity \<open>Infinity\<close>, and every
  snapshot loaded into a book held only orders that are open or partially filled and have
  a finite positive quantity with no more decimals than that book's quantity precision.
  Every order resting in either heap of such a book has a quantity greater than 0 and the
  status open or partially filled.
\<close>

theorem reach_resting_quantity_status:
  assumes "reach quantity_not_Infinity admit_resting b"
    and "x \<in> set (bids b) \<union> set (asks b)"
  shows "js_lt (Num 0) (quantity x) \<and> (status x = OPEN \<or> status x = PARTIALLY_FILLED)"
proof -
  have "qty_inv b"
    by (rule reach_qty_inv [OF _ _ assms(1)]) (simp_all add: admit_resting_def)
  then have "qty_ok (quantityPrecision b) x" using assms(2) by (simp add: qty_inv_def)
  then obtain q where "quantity x = Num q" "0 < q"
    and "status x = OPEN \<or> status x = PARTIALLY_FILLED"
    by (auto simp: qty_ok_def)
  then show ?thesis by simp
qed

text \<open>
  In the book with depth on both sides the bid \<open>b3\<close> rests partially filled with the
  quantity 2.
\<close>

theorem reach_resting_quantity_status_witness:
  "reach quantity_not_Infinity admit_resting ex_book_depth \<and>
   map (\<lambda>x. (oid x, quantity x, status x)) (bids ex_book_depth) =
     [(''b3'', Num 2, PARTIALLY_FILLED), (''b1'', Num 1, OPEN), (''b2'', Num 1, OPEN)] \<and>
   js_lt (Num 0) (quantity ((resting ''b3'' BUY 100 2 6)\<lparr>status := PARTIALLY_FILLED\<rparr>)) \<and>
   (status ((resting ''b3'' BUY 100 2 6)\<lparr>status := PARTIALLY_FILLED\<rparr>) = OPEN \<or>
    status ((resting ''b3'' BUY 100 2 6)\<lparr>status := PARTIALLY_FILLED\<rparr>) = PARTIALLY_FILLED)"
proof -
  have b: "bids ex_book_depth =
      [(resting ''b3'' BUY 100 2 6)\<lparr>status := PARTIALLY_FILLED\<rparr>,
       resting ''b1'' BUY 90 1 4, resting ''b2'' BUY 95 1 5]"
    by code_simp
  then have m: "(resting ''b3'' BUY 100 2 6)\<lparr>status := PARTIALLY_FILLED\<rparr>
      \<in> set (bids ex_book_depth) \<union> set (asks ex_book_depth)" by simp
  have l: "map (\<lambda>x. (oid x, quantity x, status x)) (bids ex_book_depth) =
     [(''b3'', Num 2, PARTIALLY_FILLED), (''b1'', Num 1, OPEN), (''b2'', Num 1, OPEN)]"
    by (simp add: b resting_def)
  show ?thesis
    using reach_resting_quantity_status [OF reach_ex_book_depth(2) m]
      reach_ex_book_depth(2) [of admit_resting] l by simp
qed

subsection \<open>C7: market orders never rest\<close>

text \<open>
  C7 as stated fails in its second half: \<open>addOrder\<close> never inserts a market order, but
  \<open>loadSnapshot\<close> inserts whatever the snapshot holds, so a snapshot with an order of
  type \<open>market\<close> puts a market order in a heap.
\<close>

definition market_snapshot :: snapshot where
  "market_snapshot =
     \<lparr>s_pair = ''BTC/USDT'', s_timestamp = 1000,
      s_bids = [(resting ''m1'' BUY 100 1 1)\<lparr>otype := MARKET\<rparr>], s_asks = [],
      s_bestBid = Some ((resting ''m1'' BUY 100 1 1)\<lparr>otype := MARKET\<rparr>), s_bestAsk = None,
      s_spread = None\<rparr>"

theorem loadSnapshot_market_order_rests:
  "\<not> isl (loadSnapshot market_snapshot ex_empty) \<and>
   map (\<lambda>x. (oid x, otype x)) (bids (projr (loadSnapshot market_snapshot ex_empty)))
     = [(''m1'', MARKET)]"
  by code_simp

text \<open>
  C7, amended: for every \<open>addOrder\<close> call with a valid market order, whatever is left of
  the order after matching is discarded: the heap of the order's own side stays as it was,
  and every order in the opposing heap afterwards is an order that was there before, up to
  its quantity. And in every book obtained from a new book by \<open>addOrder\<close>,
  \<open>applyRemoteOrder\<close>, \<open>cancelOrder\<close> and \<open>loadSnapshot\<close>, where every snapshot loaded
  holds only limit orders, every order in either heap is a limit order.
\<close>

theorem market_order_never_rests:
  "(validateOrder order = None \<and> r_type order = Some MARKET \<longrightarrow>
      sameHeap (normalise clk order b) (snd (addOrder clk order b))
        = sameHeap (normalise clk order b) b \<and>
      (\<forall>x\<in>set (opposingHeap (normalise clk order b) (snd (addOrder clk order b))).
         \<exists>y\<in>set (opposingHeap (normalise clk order b) b). x = y\<lparr>quantity := quantity x\<rparr>)) \<and>
   (reach any_order admit_limit b' \<longrightarrow> limit_inv b')"
proof (intro conjI impI)
  assume "reach any_order admit_limit b'"
  then show "limit_inv b'"
    by (rule reach_limit_inv [rotated]) (simp add: admit_limit_def)
next
  let ?n = "normalise clk order b"
  assume a: "validateOrder order = None \<and> r_type order = Some MARKET"
  obtain trs rem b1 where m: "match clk (clock_reads order) ?n b = (trs, rem, b1)"
    by (cases "match clk (clock_reads order) ?n b") auto
  note ab = addOrder_book [OF conjunct1 [OF a] m]
  note ah = addOrder_heaps [OF conjunct1 [OF a] m]
  have "otype ?n = MARKET" using normalise_valid(4) [OF conjunct1 [OF a]] a by simp
  then have nl: "otype rem \<noteq> LIMIT" using ah(2) by simp
  have e: "bids (snd (addOrder clk order b)) = bids b1" "asks (snd (addOrder clk order b)) = asks b1"
    using ab(1,2) nl by simp_all
  show "sameHeap ?n (snd (addOrder clk order b)) = sameHeap ?n b"
    using e ah(4) by (auto simp: sameHeap_def split: if_splits)
  have "opposingHeap ?n (snd (addOrder clk order b)) = opposingHeap ?n b1"
    using e by (simp add: opposingHeap_def)
  then show "\<forall>x\<in>set (opposingHeap ?n (snd (addOrder clk order b))).
         \<exists>y\<in>set (opposingHeap ?n b). x = y\<lparr>quantity := quantity x\<rparr>"
    using ah(6) by simp
qed

text \<open>
  A market bid of 5 against \<open>s1\<close> (1 at 100) trades 1 and is left with 4, which is
  returned as the remainder and rests nowhere; and the book with depth on both sides
  holds limit orders only.
\<close>

theorem market_order_never_rests_witness:
  "validateOrder (market_order ''m1'' BUY 5) = None \<and>
   r_type (market_order ''m1'' BUY 5) = Some MARKET \<and>
   map_option quantity
      (res_remainder (projr (fst (addOrder ex_clock (market_order ''m1'' BUY 5) ex_book_s1))))
      = Some (Num 4) \<and>
   bids (snd (addOrder ex_clock (market_order ''m1'' BUY 5) ex_book_s1)) = bids ex_book_s1 \<and>
   reach any_order admit_limit ex_book_depth \<and>
   map otype (bids ex_book_depth @ asks ex_book_depth) = [LIMIT, LIMIT, LIMIT, LIMIT, LIMIT] \<and>
   limit_inv ex_book_depth"
proof -
  let ?o = "market_order ''m1'' BUY 5"
  have v: "validateOrder ?o = None" by code_simp
  have t: "r_type ?o = Some MARKET" by (simp add: market_order_def)
  have q: "map_option quantity
      (res_remainder (projr (fst (addOrder ex_clock ?o ex_book_s1)))) = Some (Num 4)"
    by code_simp
  have s: "side (normalise ex_clock ?o ex_book_s1) = BUY"
    by (simp add: normalise_def market_order_def)
  have r: "reach any_order admit_limit ex_book_depth"
    unfolding ex_book_depth_def
    by (rule reach_add_all [OF reach_ex_empty]) (simp add: depth_orders_def)
  have l: "map otype (bids ex_book_depth @ asks ex_book_depth)
      = [LIMIT, LIMIT, LIMIT, LIMIT, LIMIT]"
    by code_simp
  show ?thesis
    using market_order_never_rests [of ?o ex_clock ex_book_s1 ex_book_depth] v t q r l
    by (simp add: sameHeap_def s)
qed

subsection \<open>C8: validation\<close>





subsection \<open>C9: remote orders\<close>

text \<open>
  C9: \<open>applyRemoteOrder\<close> hands \<open>addOrder\<close> a copy of the order with the extra property
  \<open>remote\<close>, which \<open>addOrder\<close> never reads: for every order, book and clock the two
  calls return the same result and leave the same book.
\<close>

theorem applyRemoteOrder_eq_addOrder:
  "applyRemoteOrder clk order b = addOrder clk order b"
  by (simp add: applyRemoteOrder_def addOrder_def validateOrder_def normalise_def
      clock_reads_def)

theorem applyRemoteOrder_eq_addOrder_witness:
  "fst (applyRemoteOrder ex_clock (limit_order ''b1'' BUY 100 1 2) ex_book_s1) =
     Inr \<lparr>res_trades =
            [\<lparr>tid = (''b1'', ''s1'', 1000), tpair = ''BTC/USDT'', tprice = Some (Num 100),
              tquantity = Num 1, buyOrderId = ''b1'', sellOrderId = ''s1'', buyPeerId = None,
              sellPeerId = None, ttimestamp = 1001\<rparr>],
          res_remainder = None, res_status = FILLED\<rparr>"
proof -
  have "fst (addOrder ex_clock (limit_order ''b1'' BUY 100 1 2) ex_book_s1) =
     Inr \<lparr>res_trades =
            [\<lparr>tid = (''b1'', ''s1'', 1000), tpair = ''BTC/USDT'', tprice = Some (Num 100),
              tquantity = Num 1, buyOrderId = ''b1'', sellOrderId = ''s1'', buyPeerId = None,
              sellPeerId = None, ttimestamp = 1001\<rparr>],
          res_remainder = None, res_status = FILLED\<rparr>"
    by code_simp
  then show ?thesis
    using applyRemoteOrder_eq_addOrder [of ex_clock "limit_order ''b1'' BUY 100 1 2" ex_book_s1]
    by simp
qed

subsection \<open>C10: a market order without opposing liquidity\<close>

text \<open>
  C10 as stated fails for a valid market order whose quantity rounds to \<open>0\<close> at the
  book's quantity precision: \<open>10\<^sup>-\<^sup>9\<close> passes \<open>#validateOrder\<close>, is normalised to \<open>0\<close>
  at precision 8, and \<open>addOrder\<close> returns no remainder and the status \<open>filled\<close>.
\<close>

definition tiny_market :: raw_order where
  "tiny_market = market_order ''m1'' BUY (1 / 10 ^ 9)"

theorem addOrder_market_rounds_to_zero:
  "validateOrder tiny_market = None \<and> r_type tiny_market = Some MARKET \<and>
   asks ex_empty = [] \<and>
   addOrder ex_clock tiny_market ex_empty =
     (Inr \<lparr>res_trades = [], res_remainder = None, res_status = FILLED\<rparr>, ex_empty)"
  by code_simp

text \<open>
  C10, amended: for every valid market order whose normalised quantity is positive, when
  the opposing heap is empty, \<open>addOrder\<close> returns no trades, the status \<open>open\<close> and the
  normalised order (with its full quantity) as remainder, and leaves the book (both heaps,
  the trade log and the log of hook invocations) unchanged.
\<close>

theorem addOrder_market_no_liquidity:
  assumes "validateOrder order = None"
    and "r_type order = Some MARKET"
    and "opposingHeap (normalise clk order b) b = []"
    and "js_lt (Num 0) (quantity (normalise clk order b))"
  shows "addOrder clk order b =
     (Inr \<lparr>res_trades = [], res_remainder = Some (normalise clk order b), res_status = OPEN\<rparr>, b)"
proof -
  let ?n = "normalise clk order b"
  have m: "match clk (clock_reads order) ?n b = ([], ?n, b)"
    using assms(3) by (simp add: match_def match_loop_empty)
  have st: "?n\<lparr>status := OPEN\<rparr> = ?n" by (simp add: normalise_def)
  have ty: "otype ?n = MARKET" using assms(2) by (simp add: normalise_def truthy_str_def)
  have so: "status ?n = OPEN" by (simp add: normalise_def)
  show ?thesis
    using assms(1,4) m st ty so by (simp add: addOrder_def Let_def)
qed

theorem addOrder_market_no_liquidity_witness:
  "validateOrder (market_order ''m1'' BUY 1) = None \<and>
   addOrder ex_clock (market_order ''m1'' BUY 1) ex_empty =
     (Inr \<lparr>res_trades = [],
            res_remainder = Some \<lparr>oid = ''m1'', side = BUY, otype = MARKET, price = None,
              quantity = Num 1, peerId = None, timestamp = Num 1000, status = OPEN\<rparr>,
            res_status = OPEN\<rparr>, ex_empty)"
proof -
  have v: "validateOrder (market_order ''m1'' BUY 1) = None" by code_simp
  have t: "r_type (market_order ''m1'' BUY 1) = Some MARKET" by (simp add: market_order_def)
  have n: "normalise ex_clock (market_order ''m1'' BUY 1) ex_empty =
      \<lparr>oid = ''m1'', side = BUY, otype = MARKET, price = None,
              quantity = Num 1, peerId = None, timestamp = Num 1000, status = OPEN\<rparr>"
    by code_simp
  have h: "opposingHeap (normalise ex_clock (market_order ''m1'' BUY 1) ex_empty) ex_empty = []"
    by code_simp
  have q: "js_lt (Num 0) (quantity (normalise ex_clock (market_order ''m1'' BUY 1) ex_empty))"
    by (simp add: n)
  show ?thesis
    using addOrder_market_no_liquidity [OF v t h q] v n by simp
qed

end
